theory Spec2Isabelle
  imports Complex_Main "HOL-Library.AList" "HOL-Library.Multiset"
begin

section \<open>Strings\<close>

text \<open>
  A JavaScript string is a sequence of UTF-16 code units. The model uses \<open>string\<close>; a
  \<open>char\<close> is read as the code unit with the same number, so the model covers the strings
  whose code units lie in U+0000..U+00FF. In that range the white space that \<open>trim\<close> and
  \<open>parseInt\<close> strip is TAB, LF, VT, FF, CR, SPACE and NBSP, and \<open>toLowerCase\<close> moves
  A..Z and U+00C0..U+00DE (without U+00D7) up by 32.
\<close>

definition isWhiteSpace :: "char \<Rightarrow> bool" where
  "isWhiteSpace c = (of_char c \<in> {9, 10, 11, 12, 13, 32, 160 :: nat})"

definition trim :: "string \<Rightarrow> string" where
  "trim s = rev (dropWhile isWhiteSpace (rev (dropWhile isWhiteSpace s)))"

definition lowerChar :: "char \<Rightarrow> char" where
  "lowerChar c =
     (let n = of_char c :: nat
      in if (65 \<le> n \<and> n \<le> 90) \<or> (192 \<le> n \<and> n \<le> 222 \<and> n \<noteq> 215)
         then char_of (n + 32) else c)"

definition toLowerCase :: "string \<Rightarrow> string" where
  "toLowerCase s = map lowerChar s"

text \<open>\<open>String.prototype.split(',')\<close>: the pieces between the commas; never empty.\<close>

fun splitComma :: "string \<Rightarrow> string list" where
  "splitComma [] = [[]]"
| "splitComma (c # cs) =
     (if c = CHR '','' then [] # splitComma cs
      else (case splitComma cs of [] \<Rightarrow> [[c]] | h # t \<Rightarrow> (c # h) # t))"

section \<open>Numbers and their decimal text\<close>

definition digitChar :: "nat \<Rightarrow> char" where
  "digitChar d = ''0123456789'' ! d"

fun digits :: "nat \<Rightarrow> string" where
  "digits n = (if n < 10 then [digitChar n] else digits (n div 10) @ [digitChar (n mod 10)])"

declare digits.simps [simp del]

text \<open>
  A finite number is written \<open>m * 10 ^ e\<close>, the decimal expansion that \<open>Number::toString\<close>
  prints. \<open>stripZeros\<close> moves the trailing zeros of the digits into the exponent, so that the
  digit string is the shortest one.
\<close>

function stripZeros :: "nat \<Rightarrow> int \<Rightarrow> nat \<times> int" where
  "stripZeros s e = (if s \<noteq> 0 \<and> s mod 10 = 0 then stripZeros (s div 10) (e + 1) else (s, e))"
  by pat_completeness auto
termination
  by (relation "measure (\<lambda>(s, e). s)") auto

declare stripZeros.simps [simp del]

text \<open>
  \<open>Number::toString\<close> in radix 10, for the number \<open>m * 10 ^ e\<close>: with \<open>k\<close> digits \<open>s\<close> and
  the decimal point after the first \<open>n\<close> digits, the text is plain for \<open>-6 < n \<le> 21\<close> and in
  exponent notation otherwise.
\<close>

definition numberToString :: "int \<Rightarrow> int \<Rightarrow> string" where
  "numberToString m e =
     (if m = 0 then ''0''
      else
        let (s, e') = stripZeros (nat \<bar>m\<bar>) e;
            ds = digits s;
            k = int (length ds);
            n = e' + k;
            body =
              (if k \<le> n \<and> n \<le> 21 then ds @ replicate (nat (n - k)) CHR ''0''
               else if 0 < n \<and> n \<le> 21 then take (nat n) ds @ ''.'' @ drop (nat n) ds
               else if - 6 < n \<and> n \<le> 0 then ''0.'' @ replicate (nat (- n)) CHR ''0'' @ ds
               else
                 (if k = 1 then ds else take 1 ds @ ''.'' @ drop 1 ds)
                 @ ''e'' @ (if n - 1 < 0 then ''-'' else ''+'') @ digits (nat \<bar>n - 1\<bar>))
        in (if m < 0 then ''-'' else '''') @ body)"

definition isDigit :: "char \<Rightarrow> bool" where
  "isDigit c = (48 \<le> (of_char c :: nat) \<and> (of_char c :: nat) \<le> 57)"

definition digitsValue :: "string \<Rightarrow> nat" where
  "digitsValue ds = foldl (\<lambda>acc c. 10 * acc + (of_char c - 48)) 0 ds"

text \<open>
  \<open>Number.parseInt(text, 10)\<close> on a string: leading white space and one sign are skipped,
  the longest run of decimal digits is read, and the rest is ignored. \<open>None\<close> is NaN
  (no digit at that place).
\<close>

definition parseInt10 :: "string \<Rightarrow> int option" where
  "parseInt10 text =
     (let t = dropWhile isWhiteSpace text;
          neg = (t \<noteq> [] \<and> hd t = CHR ''-'');
          u = (if t \<noteq> [] \<and> (hd t = CHR ''-'' \<or> hd t = CHR ''+'') then tl t else t);
          ds = takeWhile isDigit u
      in if ds = [] then None
         else Some (if neg then - int (digitsValue ds) else int (digitsValue ds)))"

text \<open>\<open>Number.isSafeInteger\<close> on the result of \<open>parseInt\<close>; NaN is not an integer.\<close>

definition maxSafeInteger :: int where
  "maxSafeInteger = 9007199254740991"

definition isSafeInteger :: "int option \<Rightarrow> bool" where
  "isSafeInteger v = (case v of None \<Rightarrow> False | Some i \<Rightarrow> \<bar>i\<bar> \<le> maxSafeInteger)"

section \<open>Loosely typed values\<close>

text \<open>
  The values the ledger receives from its callers: what \<open>JSON.parse\<close> produces, and
  \<open>undefined\<close>, NaN and the infinities. \<open>JNum m e\<close> is the finite number \<open>m * 10 ^ e\<close>;
  \<open>JInfinity neg\<close> is negative for \<open>neg\<close>. An object is the list of its own properties, read
  at the first binding of a key; it inherits the methods of \<open>Object.prototype\<close> and holds no
  function of its own.
\<close>

datatype jsval =
    JUndefined
  | JNull
  | JBool bool
  | JNum int int
  | JNaN
  | JInfinity bool
  | JStr string
  | JArr "jsval list"
  | JObj "(string \<times> jsval) list"

datatype js_error = TypeError

text \<open>The operand test of \<open>||\<close>, \<open>!\<close> and \<open>if\<close>.\<close>

fun truthy :: "jsval \<Rightarrow> bool" where
  "truthy JUndefined = False"
| "truthy JNull = False"
| "truthy (JBool b) = b"
| "truthy (JNum m e) = (m \<noteq> 0)"
| "truthy JNaN = False"
| "truthy (JInfinity neg) = True"
| "truthy (JStr s) = (s \<noteq> [])"
| "truthy (JArr xs) = True"
| "truthy (JObj kvs) = True"

text \<open>\<open>typeof v === 'object'\<close>\<close>

fun typeofObject :: "jsval \<Rightarrow> bool" where
  "typeofObject JNull = True"
| "typeofObject (JArr xs) = True"
| "typeofObject (JObj kvs) = True"
| "typeofObject v = False"

text \<open>
  Property read \<open>v.name\<close> for the names the ledger reads (\<open>txId\<close>, \<open>payer\<close>, ...): neither
  \<open>Object.prototype\<close> nor \<open>Array.prototype\<close> has them, so the read is the own property or
  \<open>undefined\<close>.
\<close>

fun getProp :: "jsval \<Rightarrow> string \<Rightarrow> jsval" where
  "getProp (JObj kvs) name = (case map_of kvs name of None \<Rightarrow> JUndefined | Some v \<Rightarrow> v)"
| "getProp v name = JUndefined"

text \<open>
  \<open>String(v)\<close> and the \<open>ToString\<close> that \<open>parseInt\<close> applies to its argument. An array joins
  its elements with commas, \<open>undefined\<close> and \<open>null\<close> elements giving the empty text. An
  object is converted by its \<open>toString\<close> method: the inherited one answers
  \<open>[object Object]\<close>; an own property \<open>toString\<close> hides it and is not callable, the
  inherited \<open>valueOf\<close> returns the object itself, and the conversion throws a TypeError.
\<close>

fun ToString :: "jsval \<Rightarrow> js_error + string"
  and joinElements :: "jsval list \<Rightarrow> js_error + string" where
  "ToString JUndefined = Inr ''undefined''"
| "ToString JNull = Inr ''null''"
| "ToString (JBool b) = Inr (if b then ''true'' else ''false'')"
| "ToString (JNum m e) = Inr (numberToString m e)"
| "ToString JNaN = Inr ''NaN''"
| "ToString (JInfinity neg) = Inr (if neg then ''-Infinity'' else ''Infinity'')"
| "ToString (JStr s) = Inr s"
| "ToString (JArr xs) = joinElements xs"
| "ToString (JObj kvs) =
     (if map_of kvs ''toString'' \<noteq> None then Inl TypeError else Inr ''[object Object]'')"
| "joinElements [] = Inr []"
| "joinElements (x # xs) =
     (case (if x = JUndefined \<or> x = JNull then Inr [] else ToString x) of
        Inl err \<Rightarrow> Inl err
      | Inr s \<Rightarrow>
          (if xs = [] then Inr s
           else (case joinElements xs of
                   Inl err \<Rightarrow> Inl err
                 | Inr t \<Rightarrow> Inr (s @ '','' @ t))))"

section \<open>Event model\<close>

text \<open>Sequencing of steps that may throw: the first exception ends the call.\<close>

definition andThen :: "js_error + 'a \<Rightarrow> ('a \<Rightarrow> js_error + 'b) \<Rightarrow> js_error + 'b" where
  "andThen r f = (case r of Inl err \<Rightarrow> Inl err | Inr x \<Rightarrow> f x)"

text \<open>\<open>const normalizeText = (value) => String(value || '').trim()\<close>\<close>

definition normalizeText :: "jsval \<Rightarrow> js_error + string" where
  "normalizeText v = andThen (ToString (if truthy v then v else JStr [])) (\<lambda>s. Inr (trim s))"

definition normalizeMember :: "jsval \<Rightarrow> js_error + string" where
  "normalizeMember v = andThen (normalizeText v) (\<lambda>s. Inr (toLowerCase s))"

text \<open>
  The loop of \<open>parseMembers\<close>: \<open>dedup\<close> is the Set, \<open>members\<close> the array that is returned.
\<close>

fun parseMembersLoop :: "jsval list \<Rightarrow> string set \<Rightarrow> string list \<Rightarrow> js_error + string list" where
  "parseMembersLoop [] dedup members = Inr members"
| "parseMembersLoop (raw # rest) dedup members =
     andThen (normalizeMember raw) (\<lambda>m.
       if m = [] \<or> m \<in> dedup then parseMembersLoop rest dedup members
       else parseMembersLoop rest (insert m dedup) (members @ [m]))"

definition parseMembers :: "jsval \<Rightarrow> js_error + string list" where
  "parseMembers v =
     parseMembersLoop
       (case v of JArr xs \<Rightarrow> xs | JStr s \<Rightarrow> map JStr (splitComma s) | _ \<Rightarrow> [])
       {} []"

text \<open>
  An expense event as \<open>normalizeEvent\<close> builds it. \<open>ts\<close> is a finite number \<open>(m, e)\<close>,
  that is \<open>m * 10 ^ e\<close>; \<open>by_id\<close> is the field \<open>by\<close>, \<open>note_text\<close> the field \<open>note\<close>.
\<close>

record event =
  txId :: string
  payer :: string
  amountCents :: int
  split :: "string list"
  note_text :: string
  ts :: "int \<times> int"
  by_id :: jsval

text \<open>
  \<open>normalizeEvent\<close>: \<open>Inr None\<close> is the returned \<open>null\<close>, \<open>Inl TypeError\<close> a thrown
  exception. \<open>now\<close> is the reading of \<open>Date.now()\<close>. \<open>Number.isFinite(event.ts)\<close> holds
  of the finite numbers only, and \<open>event.by ?? null\<close> replaces \<open>undefined\<close> by \<open>null\<close>.
\<close>

definition normalizeEvent :: "int \<Rightarrow> jsval \<Rightarrow> js_error + event option" where
  "normalizeEvent now ev =
     (if \<not> truthy ev \<or> \<not> typeofObject ev then Inr None
      else
        andThen (normalizeText (getProp ev ''txId'')) (\<lambda>tx.
        andThen (normalizeMember (getProp ev ''payer'')) (\<lambda>p.
        andThen (ToString (getProp ev ''amountCents'')) (\<lambda>atext.
        andThen (parseMembers (getProp ev ''split'')) (\<lambda>sp.
          let amount = parseInt10 atext in
          if tx = [] \<or> p = [] \<or> \<not> isSafeInteger amount \<or> the amount \<le> 0 \<or> length sp = 0
          then Inr None
          else
            andThen (normalizeText (getProp ev ''note'')) (\<lambda>n.
              Inr (Some \<lparr>
                txId = tx,
                payer = p,
                amountCents = the amount,
                split = sp,
                note_text = n,
                ts = (case getProp ev ''ts'' of JNum m e \<Rightarrow> (m, e) | _ \<Rightarrow> (now, 0)),
                by_id = (if getProp ev ''by'' = JUndefined then JNull else getProp ev ''by'')
              \<rparr>)))))))"

section \<open>Room store and merge engine\<close>

record room =
  events :: "event list"
  txSeen :: "string set"

text \<open>
  The ledger object: \<open>rooms\<close> is the Map from room key to room. The fields \<open>peer\<close>,
  \<open>sidechannel\<close> and \<open>debug\<close> only serve broadcasting and logging and are left out.
\<close>

record ledger =
  defaultChannel :: string
  rooms :: "string \<rightharpoonup> room"

text \<open>The constructor, applied to \<open>config.defaultChannel\<close>.\<close>

definition newLedger :: "jsval \<Rightarrow> ledger" where
  "newLedger configured =
     \<lparr> defaultChannel =
         (case configured of
            JStr s \<Rightarrow> if trim s \<noteq> [] then trim s else ''0000intercom''
          | _ \<Rightarrow> ''0000intercom''),
       rooms = Map.empty \<rparr>"

definition resolveChannel :: "ledger \<Rightarrow> jsval \<Rightarrow> js_error + string" where
  "resolveChannel L channel =
     andThen (normalizeText channel) (\<lambda>target.
       Inr (if target \<noteq> [] then target else defaultChannel L))"

definition emptyRoom :: room where
  "emptyRoom = \<lparr> events = [], txSeen = {} \<rparr>"

text \<open>
  \<open>getRoom\<close> returns the room object stored under the key, creating it first when it is
  missing; the model returns the key, the room and the ledger that holds it.
\<close>

definition getRoom :: "ledger \<Rightarrow> jsval \<Rightarrow> js_error + (string \<times> room \<times> ledger)" where
  "getRoom L channel =
     andThen (resolveChannel L channel) (\<lambda>key.
       case rooms L key of
         None \<Rightarrow> Inr (key, emptyRoom, L\<lparr>rooms := (rooms L)(key \<mapsto> emptyRoom)\<rparr>)
       | Some r \<Rightarrow> Inr (key, r, L))"

text \<open>
  The result of \<open>addEvent\<close>: \<open>{ok: false, error}\<close> or \<open>{ok: true, duplicate, event}\<close>.
\<close>

datatype add_result = AddFailed string | AddOk bool event

definition addEvent :: "int \<Rightarrow> ledger \<Rightarrow> jsval \<Rightarrow> jsval \<Rightarrow> js_error + (add_result \<times> ledger)" where
  "addEvent now L channel ev =
     andThen (normalizeEvent now ev) (\<lambda>normalized.
       case normalized of
         None \<Rightarrow> Inr (AddFailed ''Invalid expense event payload.'', L)
       | Some n \<Rightarrow>
           andThen (getRoom L channel) (\<lambda>(key, r, L1).
             if txId n \<in> txSeen r then Inr (AddOk True n, L1)
             else
               Inr (AddOk False n,
                    L1\<lparr>rooms := (rooms L1)(key \<mapsto>
                      r\<lparr>txSeen := insert (txId n) (txSeen r), events := events r @ [n]\<rparr>)\<rparr>)))"

text \<open>
  \<open>clearChannel\<close> deletes the room and returns \<open>{ok: true, channel}\<close>; the broadcast that
  follows is guarded by try/catch and does not touch the ledger.
\<close>

definition clearChannel :: "ledger \<Rightarrow> jsval \<Rightarrow> js_error + (string \<times> ledger)" where
  "clearChannel L channel =
     andThen (resolveChannel L channel) (\<lambda>target.
       Inr (target, L\<lparr>rooms := (rooms L)(target := None)\<rparr>))"

text \<open>The value of a timestamp, the key of \<open>sort((a, b) => a.ts - b.ts)\<close>.\<close>

definition tsValue :: "int \<times> int \<Rightarrow> rat" where
  "tsValue t =
     (case t of (m, e) \<Rightarrow>
        if 0 \<le> e then of_int (m * 10 ^ nat e) else of_int m / of_int (10 ^ nat (- e)))"

definition sortByTs :: "event list \<Rightarrow> event list" where
  "sortByTs evs = sort_key (\<lambda>ev. tsValue (ts ev)) evs"

definition list :: "ledger \<Rightarrow> jsval \<Rightarrow> js_error + event list" where
  "list L channel =
     andThen (resolveChannel L channel) (\<lambda>target.
       case rooms L target of
         None \<Rightarrow> Inr []
       | Some r \<Rightarrow> Inr (sortByTs (events r)))"

section \<open>Arithmetic of balances\<close>

text \<open>
  Amounts and balances are JavaScript numbers, IEEE 754 doubles with 53 significant
  bits. Every one that arises here is an integer and is modelled by its value. A sum or
  a difference of two doubles is the exact result rounded to the nearest double, a tie
  going to the neighbour with an even significand.

  The sums stay far below the largest double (lemma \<open>balances_stay_finite\<close>), so
  no operation here overflows to \<open>Infinity\<close>.

  \<open>bitLength n\<close> is the number of binary digits of \<open>n\<close>. For a natural number \<open>n\<close> with
  \<open>b\<close> digits the doubles around \<open>n\<close> are the multiples of \<open>2 ^ (b - 53)\<close>; up to
  \<open>2 ^ 53\<close> these are all the integers.
\<close>

fun bitLength :: "nat \<Rightarrow> nat" where
  "bitLength n = (if n = 0 then 0 else Suc (bitLength (n div 2)))"

declare bitLength.simps [simp del]

definition roundNat :: "nat \<Rightarrow> nat" where
  "roundNat n =
     (let q = 2 ^ (bitLength n - 53);
          k = n div q;
          r = n mod q
      in if 2 * r < q then k * q
         else if q < 2 * r then (k + 1) * q
         else if even k then k * q
         else (k + 1) * q)"

definition roundDouble :: "int \<Rightarrow> int" where
  "roundDouble x = (if 0 \<le> x then int (roundNat (nat x)) else - int (roundNat (nat (- x))))"

text \<open>\<open>a + b\<close> and \<open>a - b\<close> on doubles.\<close>

definition dadd :: "int \<Rightarrow> int \<Rightarrow> int" where
  "dadd a b = roundDouble (a + b)"

definition dsub :: "int \<Rightarrow> int \<Rightarrow> int" where
  "dsub a b = roundDouble (a - b)"

section \<open>Balance calculator\<close>

text \<open>
  The Map of \<open>balances\<close> keeps its keys in insertion order: an association list that
  \<open>AList.update\<close> changes in place or extends at the end. \<open>mapGet\<close> is \<open>map.get(k) || 0\<close>.
\<close>

definition mapGet :: "(string \<times> int) list \<Rightarrow> string \<Rightarrow> int" where
  "mapGet m k = (case map_of m k of None \<Rightarrow> 0 | Some v \<Rightarrow> v)"

text \<open>The \<open>members.forEach((member, idx) => ...)\<close> of one event, from index \<open>idx\<close> on.\<close>

fun chargeMembers :: "int \<Rightarrow> int \<Rightarrow> nat \<Rightarrow> string list \<Rightarrow> (string \<times> int) list \<Rightarrow> (string \<times> int) list" where
  "chargeMembers baseShare remainder idx [] m = m"
| "chargeMembers baseShare remainder idx (mem # rest) m =
     (let share = baseShare + (if int idx < remainder then 1 else 0);
          prev = mapGet m mem
      in chargeMembers baseShare remainder (idx + 1) rest (AList.update mem (dsub prev share) m))"

text \<open>
  The body of the loop over the events. The amount of a stored event is a safe integer;
  for such an amount the quotient \<open>amountCents / members.length\<close>, rounded to a double,
  has the floor of the exact quotient, so \<open>Math.floor\<close> of it is \<open>div\<close>, and the
  product, the remainder and the share are exact. The balances are sums of doubles.
\<close>

definition applyToBalances :: "(string \<times> int) list \<Rightarrow> event \<Rightarrow> (string \<times> int) list" where
  "applyToBalances m ev =
     (let members = split ev in
      if length members = 0 then m
      else
        let baseShare = amountCents ev div int (length members);
            remainder = amountCents ev - baseShare * int (length members);
            m1 = chargeMembers baseShare remainder 0 members m;
            payerPrev = mapGet m1 (payer ev)
        in AList.update (payer ev) (dadd payerPrev (amountCents ev)) m1)"

record balance =
  member :: string
  cents :: int

text \<open>
  \<open>localeCompare\<close> belongs to the runtime and depends on its locale data. It is a
  parameter: \<open>collate\<close> maps a string to its collation key, and two members compare as
  their keys do. The sort is stable, as \<open>Array.prototype.sort\<close> is.
\<close>

definition balances :: "(string \<Rightarrow> 'k::linorder) \<Rightarrow> ledger \<Rightarrow> jsval \<Rightarrow> js_error + balance list" where
  "balances collate L channel =
     andThen (list L channel) (\<lambda>evs.
       Inr (sort_key (\<lambda>b. collate (member b))
              (map (\<lambda>(k, v). \<lparr> member = k, cents = v \<rparr>) (foldl applyToBalances [] evs))))"

section \<open>Settlement planner\<close>

text \<open>A settlement row \<open>{from, to, amountCents}\<close>.\<close>

record settlement =
  from_member :: string
  to_member :: string
  amount :: int

text \<open>
  The while loop of \<open>settlements\<close>: the arguments are the debtors from index \<open>i\<close> on and
  the creditors from index \<open>j\<close> on, with the remaining amounts written into their heads.
\<close>

function settleLoop :: "balance list \<Rightarrow> balance list \<Rightarrow> settlement list" where
  "settleLoop [] creditors = []"
| "settleLoop (d # ds) [] = []"
| "settleLoop (d # ds) (c # cs) =
     (let amt = min (cents d) (cents c);
          row = (if amt > 0
                 then [\<lparr> from_member = member d, to_member = member c, amount = amt \<rparr>]
                 else []);
          d' = d\<lparr>cents := dsub (cents d) amt\<rparr>;
          c' = c\<lparr>cents := dsub (cents c) amt\<rparr>
      in row @ settleLoop (if cents d' = 0 then ds else d' # ds)
                          (if cents c' = 0 then cs else c' # cs))"
  by pat_completeness auto
termination
  by (relation "measure (\<lambda>(ds, cs). length ds + length cs)")
     (auto simp: min_def dsub_def roundDouble_def roundNat_def bitLength.simps [of 0])

declare settleLoop.simps [simp del]

text \<open>
  The comparator \<open>b.cents - a.cents\<close> is a difference of doubles, which has the sign of
  the exact difference: both lists are sorted by decreasing amount, and the sort is
  stable.
\<close>

definition creditorsOf :: "balance list \<Rightarrow> balance list" where
  "creditorsOf bs = sort_key (\<lambda>b. - cents b) (filter (\<lambda>b. cents b > 0) bs)"

definition debtorsOf :: "balance list \<Rightarrow> balance list" where
  "debtorsOf bs =
     sort_key (\<lambda>b. - cents b)
       (map (\<lambda>b. \<lparr> member = member b, cents = \<bar>cents b\<bar> \<rparr>) (filter (\<lambda>b. cents b < 0) bs))"

definition settlements :: "(string \<Rightarrow> 'k::linorder) \<Rightarrow> ledger \<Rightarrow> jsval \<Rightarrow> js_error + settlement list" where
  "settlements collate L channel =
     andThen (balances collate L channel) (\<lambda>bs.
       Inr (settleLoop (debtorsOf bs) (creditorsOf bs)))"

text \<open>
  \<open>summary\<close> returns \<open>{channel, eventCount, totalCents, balances, settlements}\<close>.
\<close>

record summary_result =
  sum_channel :: string
  sum_eventCount :: nat
  sum_totalCents :: int
  sum_balances :: "balance list"
  sum_settlements :: "settlement list"

definition summary :: "(string \<Rightarrow> 'k::linorder) \<Rightarrow> ledger \<Rightarrow> jsval \<Rightarrow> js_error + summary_result" where
  "summary collate L channel =
     andThen (resolveChannel L channel) (\<lambda>target.
     andThen (list L (JStr target)) (\<lambda>evs.
     andThen (balances collate L (JStr target)) (\<lambda>bs.
     andThen (settlements collate L (JStr target)) (\<lambda>rows.
       Inr \<lparr> sum_channel = target,
             sum_eventCount = length evs,
             sum_totalCents = foldl (\<lambda>acc item. dadd acc (amountCents item)) 0 evs,
             sum_balances = bs,
             sum_settlements = rows \<rparr>))))"

section \<open>Snapshot codec\<close>

text \<open>An exported snapshot \<open>{channel, version, events}\<close>.\<close>

record snapshot =
  snap_channel :: string
  snap_version :: int
  snap_events :: "event list"

definition exportRoom :: "ledger \<Rightarrow> jsval \<Rightarrow> js_error + snapshot" where
  "exportRoom L channel =
     andThen (resolveChannel L channel) (\<lambda>target.
     andThen (list L (JStr target)) (\<lambda>evs.
       Inr \<lparr> snap_channel = target, snap_version = 1, snap_events = evs \<rparr>))"

text \<open>
  An event object and a snapshot object as the loosely typed values that \<open>importRoom\<close>
  reads.
\<close>

definition eventValue :: "event \<Rightarrow> jsval" where
  "eventValue ev =
     JObj [(''txId'', JStr (txId ev)),
           (''payer'', JStr (payer ev)),
           (''amountCents'', JNum (amountCents ev) 0),
           (''split'', JArr (map JStr (split ev))),
           (''note'', JStr (note_text ev)),
           (''ts'', JNum (fst (ts ev)) (snd (ts ev))),
           (''by'', by_id ev)]"

definition snapshotValue :: "snapshot \<Rightarrow> jsval" where
  "snapshotValue snap =
     JObj [(''channel'', JStr (snap_channel snap)),
           (''version'', JNum (snap_version snap) 0),
           (''events'', JArr (map eventValue (snap_events snap)))]"

text \<open>
  The loop of \<open>normalizeSnapshot\<close>. Each call of \<open>normalizeEvent\<close> reads the clock anew:
  \<open>clock i\<close> is the reading at the \<open>i\<close>-th source event.
\<close>

fun normalizeSnapshotLoop ::
  "(nat \<Rightarrow> int) \<Rightarrow> nat \<Rightarrow> jsval list \<Rightarrow> string set \<Rightarrow> event list \<Rightarrow> js_error + event list" where
  "normalizeSnapshotLoop clock i [] seen evs = Inr evs"
| "normalizeSnapshotLoop clock i (raw # rest) seen evs =
     andThen (normalizeEvent (clock i) raw) (\<lambda>normalized.
       case normalized of
         None \<Rightarrow> normalizeSnapshotLoop clock (i + 1) rest seen evs
       | Some n \<Rightarrow>
           if txId n \<in> seen then normalizeSnapshotLoop clock (i + 1) rest seen evs
           else normalizeSnapshotLoop clock (i + 1) rest (insert (txId n) seen) (evs @ [n]))"

text \<open>\<open>Number.isSafeInteger(snapshot.version) ? snapshot.version : 1\<close>\<close>

definition versionOf :: "jsval \<Rightarrow> int" where
  "versionOf v =
     (case v of
        JNum m e \<Rightarrow>
          if 0 \<le> e \<and> \<bar>m * 10 ^ nat e\<bar> \<le> maxSafeInteger then m * 10 ^ nat e
          else if e < 0 \<and> m mod 10 ^ nat (- e) = 0 \<and> \<bar>m div 10 ^ nat (- e)\<bar> \<le> maxSafeInteger
          then m div 10 ^ nat (- e)
          else 1
      | _ \<Rightarrow> 1)"

definition normalizeSnapshot :: "(nat \<Rightarrow> int) \<Rightarrow> ledger \<Rightarrow> jsval \<Rightarrow> js_error + snapshot option" where
  "normalizeSnapshot clock L snap =
     (if \<not> truthy snap \<or> \<not> typeofObject snap then Inr None
      else
        andThen (resolveChannel L (getProp snap ''channel'')) (\<lambda>ch.
        andThen (normalizeSnapshotLoop clock 0
                   (case getProp snap ''events'' of JArr xs \<Rightarrow> xs | _ \<Rightarrow> []) {} []) (\<lambda>evs.
          Inr (Some \<lparr> snap_channel = ch,
                      snap_version = versionOf (getProp snap ''version''),
                      snap_events = sortByTs evs \<rparr>))))"

text \<open>
  The merge loop of \<open>importRoom\<close>: the room and the counter \<open>added\<close> are updated for each
  event that the room has not seen.
\<close>

fun importLoop :: "event list \<Rightarrow> room \<Rightarrow> nat \<Rightarrow> room \<times> nat" where
  "importLoop [] r added = (r, added)"
| "importLoop (ev # rest) r added =
     (if txId ev \<in> txSeen r then importLoop rest r added
      else importLoop rest
             (r\<lparr>txSeen := insert (txId ev) (txSeen r), events := events r @ [ev]\<rparr>)
             (added + 1))"

text \<open>
  The result of \<open>importRoom\<close>: \<open>{ok: false, error}\<close> or \<open>{ok: true, channel, added, total}\<close>.
  \<open>replace\<close> is \<open>options.replace === true\<close>.
\<close>

datatype import_result = ImportFailed string | ImportOk string nat nat

definition importRoom ::
  "(nat \<Rightarrow> int) \<Rightarrow> ledger \<Rightarrow> jsval \<Rightarrow> bool \<Rightarrow> js_error + (import_result \<times> ledger)" where
  "importRoom clock L snap replace =
     andThen (normalizeSnapshot clock L snap) (\<lambda>normalized.
       case normalized of
         None \<Rightarrow> Inr (ImportFailed ''Invalid snapshot.'', L)
       | Some n \<Rightarrow>
           andThen (getRoom L (JStr (snap_channel n))) (\<lambda>(key, r, L1).
             let r1 = (if replace then r\<lparr>events := [], txSeen := {}\<rparr> else r);
                 (r2, added) = importLoop (snap_events n) r1 0;
                 r3 = r2\<lparr>events := sortByTs (events r2)\<rparr>
             in Inr (ImportOk (snap_channel n) added (length (events r3)),
                     L1\<lparr>rooms := (rooms L1)(key \<mapsto> r3)\<rparr>)))"

section \<open>Notions used in the statements\<close>

text \<open>The share of the member at index \<open>idx\<close> of the split, as \<open>balances\<close> computes it.\<close>

definition shareAt :: "int \<Rightarrow> int \<Rightarrow> nat \<Rightarrow> int" where
  "shareAt baseShare remainder idx = baseShare + (if int idx < remainder then 1 else 0)"

text \<open>
  The loop of \<open>balances\<close> in exact integer arithmetic: \<open>chargeMembers\<close> and
  \<open>applyToBalances\<close> with \<open>-\<close> and \<open>+\<close> in place of the operations on doubles. The
  two agree as long as no balance leaves the range in which the doubles are all the
  integers; the proofs go through this form.
\<close>

fun chargeExact :: "int \<Rightarrow> int \<Rightarrow> nat \<Rightarrow> string list \<Rightarrow> (string \<times> int) list \<Rightarrow> (string \<times> int) list" where
  "chargeExact baseShare remainder idx [] m = m"
| "chargeExact baseShare remainder idx (mem # rest) m =
     (let share = baseShare + (if int idx < remainder then 1 else 0);
          prev = mapGet m mem
      in chargeExact baseShare remainder (idx + 1) rest (AList.update mem (prev - share) m))"

definition applyExact :: "(string \<times> int) list \<Rightarrow> event \<Rightarrow> (string \<times> int) list" where
  "applyExact m ev =
     (let members = split ev in
      if length members = 0 then m
      else
        let baseShare = amountCents ev div int (length members);
            remainder = amountCents ev - baseShare * int (length members);
            m1 = chargeExact baseShare remainder 0 members m;
            payerPrev = mapGet m1 (payer ev)
        in AList.update (payer ev) (payerPrev + amountCents ev) m1)"

text \<open>
  The limit up to which every integer is a double, \<open>2 ^ 53\<close>, and the sum of the amounts
  of a list of events.
\<close>

definition exactLimit :: int where
  "exactLimit = 9007199254740992"

definition totalAmount :: "event list \<Rightarrow> int" where
  "totalAmount evs = sum_list (map amountCents evs)"

text \<open>
  What a member pays and what a member receives according to a list of settlement rows.
\<close>

definition paidBy :: "settlement list \<Rightarrow> string \<Rightarrow> int" where
  "paidBy rows x = sum_list (map amount (filter (\<lambda>row. from_member row = x) rows))"

definition receivedBy :: "settlement list \<Rightarrow> string \<Rightarrow> int" where
  "receivedBy rows x = sum_list (map amount (filter (\<lambda>row. to_member row = x) rows))"

text \<open>The members with a negative and with a positive balance.\<close>

definition debtorNames :: "balance list \<Rightarrow> string set" where
  "debtorNames bs = set (map member (filter (\<lambda>b. cents b < 0) bs))"

definition creditorNames :: "balance list \<Rightarrow> string set" where
  "creditorNames bs = set (map member (filter (\<lambda>b. 0 < cents b) bs))"

text \<open>A clock that does not advance, for the examples.\<close>

definition constClock :: "int \<Rightarrow> nat \<Rightarrow> int" where
  "constClock t i = t"

text \<open>
  Example data: a payment of 100 cents by Alice, split three ways, as it arrives from a
  peer, and the ledger that has received it in the room \<open>trip\<close>.
\<close>

definition dinnerRaw :: jsval where
  "dinnerRaw =
     JObj [(''txId'', JStr ''t1''),
           (''payer'', JStr ''Alice''),
           (''amountCents'', JNum 100 0),
           (''split'', JArr [JStr ''alice'', JStr ''bob'', JStr ''carol'']),
           (''note'', JStr ''dinner''),
           (''ts'', JNum 5 0)]"

definition dinner :: event where
  "dinner =
     \<lparr> txId = ''t1'', payer = ''alice'', amountCents = 100,
       split = [''alice'', ''bob'', ''carol''], note_text = ''dinner'',
       ts = (5, 0), by_id = JNull \<rparr>"

definition tripLedger :: ledger where
  "tripLedger =
     \<lparr> defaultChannel = ''0000intercom'',
       rooms = [''trip'' \<mapsto> \<lparr> events = [dinner], txSeen = {''t1''} \<rparr>] \<rparr>"

text \<open>
  An event with an empty \<open>txId\<close> whose split holds an object that hides the inherited
  \<open>toString\<close>: the JSON text \<open>{"txId": "", "payer": "alice", "amountCents": 100,
  "split": [{"toString": null}]}\<close>.
\<close>

definition hostileRaw :: jsval where
  "hostileRaw =
     JObj [(''txId'', JStr []),
           (''payer'', JStr ''alice''),
           (''amountCents'', JNum 100 0),
           (''split'', JArr [JObj [(''toString'', JNull)]])]"


text \<open>A string that \<open>trim\<close> leaves as it is.\<close>

definition trimmed :: "string \<Rightarrow> bool" where
  "trimmed s = (s = [] \<or> (\<not> isWhiteSpace (hd s) \<and> \<not> isWhiteSpace (last s)))"

text \<open>Applying a sequence of raw events to a channel, each at its own clock reading.\<close>

fun addEvents :: "ledger \<Rightarrow> jsval \<Rightarrow> (int \<times> jsval) list \<Rightarrow> js_error + ledger" where
  "addEvents L channel [] = Inr L"
| "addEvents L channel (x # xs) =
     andThen (addEvent (fst x) L channel (snd x)) (\<lambda>(res, L1). addEvents L1 channel xs)"

text \<open>The events stored under a room key; a missing room stores none.\<close>

definition storedEvents :: "ledger \<Rightarrow> string \<Rightarrow> event list" where
  "storedEvents L key = (case rooms L key of None \<Rightarrow> [] | Some r \<Rightarrow> events r)"








text \<open>
  Three valid events whose amounts total \<open>2 ^ 53 + 2\<close>: Al pays 9007199254740991 for
  Bob, 1 for Cleo and 2 for David, the last two with the same timestamp. The two ledgers
  have received them in the room \<open>trip\<close>, the small events in either order.
\<close>

definition bigRaw :: jsval where
  "bigRaw =
     JObj [(''txId'', JStr ''x1''), (''payer'', JStr ''al''),
           (''amountCents'', JNum 9007199254740991 0),
           (''split'', JArr [JStr ''bob'']), (''ts'', JNum 1 0)]"

definition oneRaw :: jsval where
  "oneRaw =
     JObj [(''txId'', JStr ''x2''), (''payer'', JStr ''al''), (''amountCents'', JNum 1 0),
           (''split'', JArr [JStr ''cleo'']), (''ts'', JNum 2 0)]"

definition twoRaw :: jsval where
  "twoRaw =
     JObj [(''txId'', JStr ''x3''), (''payer'', JStr ''al''), (''amountCents'', JNum 2 0),
           (''split'', JArr [JStr ''david'']), (''ts'', JNum 2 0)]"

definition bigEvent :: event where
  "bigEvent =
     \<lparr> txId = ''x1'', payer = ''al'', amountCents = 9007199254740991, split = [''bob''],
       note_text = [], ts = (1, 0), by_id = JNull \<rparr>"

definition oneEvent :: event where
  "oneEvent =
     \<lparr> txId = ''x2'', payer = ''al'', amountCents = 1, split = [''cleo''],
       note_text = [], ts = (2, 0), by_id = JNull \<rparr>"

definition twoEvent :: event where
  "twoEvent =
     \<lparr> txId = ''x3'', payer = ''al'', amountCents = 2, split = [''david''],
       note_text = [], ts = (2, 0), by_id = JNull \<rparr>"


definition twoOneLedger :: ledger where
  "twoOneLedger =
     \<lparr> defaultChannel = ''0000intercom'',
       rooms = [''trip'' \<mapsto> \<lparr> events = [bigEvent, twoEvent, oneEvent], txSeen = {''x1'', ''x2'', ''x3''} \<rparr>] \<rparr>"

text \<open>
  The shape of the events that \<open>normalizeEvent\<close> builds: exactly these are stored in
  rooms. A member is non-empty, trimmed and in lower case.
\<close>

definition wfMember :: "string \<Rightarrow> bool" where
  "wfMember m = (m \<noteq> [] \<and> trimmed m \<and> toLowerCase m = m)"

definition wfEvent :: "event \<Rightarrow> bool" where
  "wfEvent ev =
     (txId ev \<noteq> [] \<and> trimmed (txId ev) \<and>
      wfMember (payer ev) \<and>
      0 < amountCents ev \<and> amountCents ev \<le> maxSafeInteger \<and>
      split ev \<noteq> [] \<and> distinct (split ev) \<and> list_all wfMember (split ev) \<and>
      trimmed (note_text ev) \<and>
      by_id ev \<noteq> JUndefined)"

text \<open>
  The invariant of a room: its events are such events, no two share a \<open>txId\<close>, and
  \<open>txSeen\<close> holds exactly their ids. \<open>roomAt\<close> reads a room; a missing room is an empty
  one.
\<close>

definition wfRoom :: "room \<Rightarrow> bool" where
  "wfRoom r =
     (list_all wfEvent (events r) \<and> distinct (map txId (events r)) \<and>
      txSeen r = set (map txId (events r)))"

definition roomAt :: "ledger \<Rightarrow> string \<Rightarrow> room" where
  "roomAt L key = (case rooms L key of None \<Rightarrow> emptyRoom | Some r \<Rightarrow> r)"

text \<open>
  The invariant of a ledger: the default channel is as the constructor leaves it
  (trimmed, non-empty), and every room satisfies the room invariant.
\<close>

definition wfLedger :: "ledger \<Rightarrow> bool" where
  "wfLedger L =
     (trimmed (defaultChannel L) \<and> defaultChannel L \<noteq> [] \<and> (\<forall>key. wfRoom (roomAt L key)))"

section \<open>Rounding to a double\<close>

lemma bitLength_0 [simp]: "bitLength 0 = 0"
  by (simp add: bitLength.simps)

lemma bitLength_pos: "0 < n \<Longrightarrow> bitLength n = Suc (bitLength (n div 2))"
  by (subst bitLength.simps) simp

lemma bitLength_less: "n < 2 ^ k \<Longrightarrow> bitLength n \<le> k"
proof (induction k arbitrary: n)
  case 0
  then show ?case by simp
next
  case (Suc k)
  show ?case
  proof (cases "n = 0")
    case True
    then show ?thesis by simp
  next
    case False
    from Suc.prems have "n div 2 < 2 ^ k" by simp
    from Suc.IH [OF this] False show ?thesis by (simp add: bitLength_pos)
  qed
qed

lemma bitLength_ge: "2 ^ k \<le> n \<Longrightarrow> k < bitLength n"
proof (induction k arbitrary: n)
  case 0
  then show ?case by (simp add: bitLength_pos)
next
  case (Suc k)
  then have "2 ^ k \<le> n div 2" by simp
  moreover from Suc.prems have "0 < n" by (cases "n = 0") simp_all
  ultimately show ?case using Suc.IH [of "n div 2"] by (simp add: bitLength_pos)
qed

lemma bitLength_eq: "2 ^ k \<le> n \<Longrightarrow> n < 2 ^ Suc k \<Longrightarrow> bitLength n = Suc k"
  using bitLength_less [of n "Suc k"] bitLength_ge [of k n] by simp

lemma roundNat_small: "n < 2 ^ 53 \<Longrightarrow> roundNat n = n"
  using bitLength_less [of n 53] by (simp add: roundNat_def)

lemma roundNat_2_53: "roundNat (2 ^ 53) = 2 ^ 53"
  using bitLength_eq [of 53 "2 ^ 53"] by (simp add: roundNat_def)

lemma roundNat_exact: "n \<le> 2 ^ 53 \<Longrightarrow> roundNat n = n"
  using roundNat_small [of n] roundNat_2_53 by (cases "n = 2 ^ 53") simp_all

lemma roundDouble_exact: "\<bar>x\<bar> \<le> 2 ^ 53 \<Longrightarrow> roundDouble x = x"
  using roundNat_exact [of "nat x"] roundNat_exact [of "nat (- x)"]
  by (simp add: roundDouble_def nat_le_iff)

lemma dadd_exact: "\<bar>a + b\<bar> \<le> 2 ^ 53 \<Longrightarrow> dadd a b = a + b"
  by (simp add: dadd_def roundDouble_exact)

lemma dsub_exact: "\<bar>a - b\<bar> \<le> 2 ^ 53 \<Longrightarrow> dsub a b = a - b"
  by (simp add: dsub_def roundDouble_exact)

lemma dsub_self [simp]: "dsub a a = 0"
  by (simp add: dsub_def roundDouble_exact)

text \<open>
  No sum of balances overflows: a double of magnitude \<open>2 ^ 107\<close> absorbs whatever amount
  is added to it or subtracted from it.
\<close>

lemma roundNat_cases:
  "roundNat n = (n div 2 ^ (bitLength n - 53)) * 2 ^ (bitLength n - 53) \<or>
   roundNat n = (n div 2 ^ (bitLength n - 53) + 1) * 2 ^ (bitLength n - 53)"
  by (simp add: roundNat_def Let_def)

lemma roundNat_down:
  "q = 2 ^ (bitLength n - 53) \<Longrightarrow> 2 * (n mod q) < q \<Longrightarrow> roundNat n = n div q * q"
  by (simp add: roundNat_def Let_def)

lemma roundNat_le_power:
  assumes "n \<le> 2 ^ m"
  shows "roundNat n \<le> 2 ^ m"
proof (cases "n = 2 ^ m")
  case True
  have b: "bitLength (2 ^ m) = Suc m" by (rule bitLength_eq) simp_all
  have "(2 :: nat) ^ m = 2 ^ (m - (m - 52)) * 2 ^ (m - 52)"
    by (simp add: power_add [symmetric])
  then have "(2 :: nat) ^ m mod 2 ^ (m - 52) = 0" "(2 :: nat) ^ m div 2 ^ (m - 52) * 2 ^ (m - 52) = 2 ^ m"
    by (metis mod_mult_self2_is_0, metis div_mult_self_is_m nonzero_mult_div_cancel_right power_eq_0_iff zero_neq_numeral)
  with True b show ?thesis by (simp add: roundNat_def Let_def)
next
  case False
  with assms have lt: "n < 2 ^ m" by simp
  define e where "e = bitLength n - 53"
  define k where "k = n div 2 ^ e"
  have "bitLength n \<le> m" using lt by (rule bitLength_less)
  then have em: "e \<le> m" by (simp add: e_def)
  then have pw: "(2 :: nat) ^ m = 2 ^ (m - e) * 2 ^ e" by (simp add: power_add [symmetric])
  have "k * 2 ^ e \<le> n" by (simp add: k_def)
  from this lt have "k * 2 ^ e < 2 ^ m" by (rule le_less_trans)
  then have "k * 2 ^ e < 2 ^ (m - e) * 2 ^ e" unfolding pw .
  then have "k < 2 ^ (m - e)" by simp
  then have "k + 1 \<le> 2 ^ (m - e)" by simp
  then have up: "(k + 1) * 2 ^ e \<le> 2 ^ m" unfolding pw by (rule mult_le_mono1)
  then have low: "k * 2 ^ e \<le> 2 ^ m" by simp
  from roundNat_cases [of n] up low show ?thesis by (auto simp: e_def k_def)
qed

lemma roundNat_absorb:
  assumes "2 ^ 107 \<le> n" and "n \<le> 2 ^ 107 + 2 ^ 53"
  shows "roundNat n = 2 ^ 107"
proof -
  have b: "bitLength n = 108" using assms by (intro bitLength_eq [of 107 n, simplified]) simp_all
  define q :: nat where "q = 2 ^ 55"
  define r where "r = n - 2 ^ 107"
  have r: "r \<le> 2 ^ 53" and n: "n = 2 ^ 52 * q + r"
    using assms by (simp_all add: r_def q_def)
  have rq: "r < q" "2 * r < q" using r by (simp_all add: q_def)
  have "n div q = 2 ^ 52" "n mod q = r"
    unfolding n using rq(1) by simp_all
  moreover have "q = 2 ^ (bitLength n - 53)" by (simp add: b q_def)
  ultimately have "roundNat n = 2 ^ 52 * q"
    using rq(2) roundNat_down [of q n] by simp
  then show ?thesis by (simp add: q_def)
qed

lemma roundNat_bounded: "n \<le> 2 ^ 107 + 2 ^ 53 \<Longrightarrow> roundNat n \<le> 2 ^ 107"
  using roundNat_le_power [of n 107] roundNat_absorb [of n] by (cases "n \<le> 2 ^ 107") simp_all

lemma roundDouble_bounded: "\<bar>x\<bar> \<le> 2 ^ 107 + 2 ^ 53 \<Longrightarrow> \<bar>roundDouble x\<bar> \<le> 2 ^ 107"
  using roundNat_bounded [of "nat x"] roundNat_bounded [of "nat (- x)"]
  by (auto simp: roundDouble_def nat_le_iff)

section \<open>Basic facts\<close>

lemma andThen_Inr [simp]: "andThen (Inr x) f = f x"
  by (simp add: andThen_def)

lemma andThen_Inl [simp]: "andThen (Inl err) f = Inl err"
  by (simp add: andThen_def)

lemma andThen_eq_Inr: "andThen r f = Inr y \<longleftrightarrow> (\<exists>x. r = Inr x \<and> f x = Inr y)"
  by (cases r) simp_all

lemma resolveChannel_list:
  "resolveChannel L channel = Inr key \<Longrightarrow>
   list L channel = Inr (case rooms L key of None \<Rightarrow> [] | Some r \<Rightarrow> sortByTs (events r))"
  by (simp add: list_def split: option.splits)

lemma normalizeEvent_dinnerRaw: "normalizeEvent now dinnerRaw = Inr (Some dinner)"
  by code_simp

lemma resolveChannel_trip: "resolveChannel L (JStr ''trip'') = Inr ''trip''"
  by code_simp

lemma tripLedger_is_reached:
  "addEvent now (newLedger JUndefined) (JStr ''trip'') dinnerRaw = Inr (AddOk False dinner, tripLedger)"
  by (simp add: addEvent_def getRoom_def normalizeEvent_dinnerRaw resolveChannel_trip
      newLedger_def tripLedger_def emptyRoom_def dinner_def)

section \<open>Balances: conservation and shares\<close>

lemma mapGet_update: "mapGet (AList.update a v m) k = (if k = a then v else mapGet m k)"
  by (simp add: mapGet_def update_conv')

lemma sum_update:
  "sum_list (map snd (AList.update k v m)) = sum_list (map snd m) - mapGet m k + v"
  by (induction m) (auto simp: mapGet_def)

lemma sum_chargeExact:
  "sum_list (map snd (chargeExact b r idx ms m)) =
     sum_list (map snd m) - (\<Sum>j<length ms. shareAt b r (idx + j))"
proof (induction ms arbitrary: idx m)
  case Nil
  then show ?case by simp
next
  case (Cons x xs)
  have "(\<Sum>j<Suc (length xs). shareAt b r (idx + j)) =
        shareAt b r idx + (\<Sum>j<length xs. shareAt b r (Suc idx + j))"
    using sum.lessThan_Suc_shift [of "\<lambda>j. shareAt b r (idx + j)" "length xs"] by simp
  with Cons.IH [of "Suc idx"] show ?case
    by (simp add: Let_def sum_update shareAt_def)
qed

lemma count_below: "(\<Sum>j<n. if j < k then 1 else 0) = int (min n k)"
  by (induction n) auto

lemma sum_shares:
  assumes "0 \<le> r" and "r \<le> int n"
  shows "(\<Sum>j<n. shareAt b r j) = int n * b + r"
proof -
  have eq: "shareAt b r j = b + (if j < nat r then 1 else 0)" for j
    using assms by (auto simp: shareAt_def)
  have "(\<Sum>j<n. shareAt b r j) = (\<Sum>j<n. b) + (\<Sum>j<n. if j < nat r then 1 else 0)"
    by (simp add: eq sum.distrib)
  also have "\<dots> = int n * b + int (min n (nat r))"
    by (simp add: count_below)
  finally show ?thesis using assms by simp
qed

lemma remainder_bounds:
  assumes "0 < n"
  shows "0 \<le> a - a div int n * int n" and "a - a div int n * int n < int n"
  using assms by (simp_all add: minus_div_mult_eq_mod)

lemma sum_shares_event:
  assumes "0 < n"
  shows "(\<Sum>j<n. shareAt (a div int n) (a - a div int n * int n) j) = a"
  using sum_shares [of "a - a div int n * int n" n "a div int n"] remainder_bounds [OF assms, of a]
  by (simp add: mult.commute)

lemma sum_applyExact:
  "sum_list (map snd (applyExact m ev)) = sum_list (map snd m)"
proof (cases "split ev = []")
  case True
  then show ?thesis by (simp add: applyExact_def)
next
  case False
  then have "0 < length (split ev)" by simp
  from sum_shares_event [OF this, of "amountCents ev"] False show ?thesis
    using sum_chargeExact [of _ _ 0 "split ev" m]
    by (simp add: applyExact_def Let_def sum_update)
qed

lemma sum_foldl_applyExact:
  "sum_list (map snd (foldl applyExact m evs)) = sum_list (map snd m)"
  by (induction evs arbitrary: m) (simp_all add: sum_applyExact)

lemma sum_list_sort_key_cents:
  "sum_list (map cents (sort_key f bs)) = sum_list (map cents bs)"
proof -
  have "mset (map cents (sort_key f bs)) = mset (map cents bs)" by simp
  then show ?thesis by (metis sum_mset_sum_list)
qed

lemma cents_entries:
  "map cents (map (\<lambda>(k, v). \<lparr> member = k, cents = v \<rparr>) m) = map snd m"
  by (induction m) auto

text \<open>
  Within the limit the loop on doubles is the exact loop: while the amounts charged so
  far total \<open>C\<close> and the amounts paid so far total \<open>P\<close>, every balance lies between
  \<open>- C\<close> and \<open>P\<close>.
\<close>

lemma shareAt_nonneg: "0 \<le> b \<Longrightarrow> 0 \<le> shareAt b r i"
  by (simp add: shareAt_def)

lemma bounds_mono:
  assumes "\<forall>k. - C \<le> mapGet m k \<and> mapGet m k \<le> P" and "C \<le> C'" and "P \<le> P'"
  shows "\<forall>k. - C' \<le> mapGet m k \<and> mapGet m k \<le> (P' :: int)"
proof
  fix k
  from assms(1) have "- C \<le> mapGet m k" "mapGet m k \<le> P" by simp_all
  with assms(2,3) show "- C' \<le> mapGet m k \<and> mapGet m k \<le> P'" by simp
qed

lemma bounds_update:
  assumes "\<forall>k. - C \<le> mapGet m k \<and> mapGet m k \<le> P" and "- C \<le> v" and "v \<le> (P :: int)"
  shows "\<forall>k. - C \<le> mapGet (AList.update x v m) k \<and> mapGet (AList.update x v m) k \<le> P"
  using assms by (simp add: mapGet_update)

lemma chargeMembers_exact:
  assumes "\<forall>k. - C \<le> mapGet m k \<and> mapGet m k \<le> P"
    and "0 \<le> b" and "0 \<le> C" and "0 \<le> P" and "P \<le> exactLimit"
    and "C + (\<Sum>j<length ms. shareAt b r (idx + j)) \<le> exactLimit"
  shows "chargeMembers b r idx ms m = chargeExact b r idx ms m \<and>
         (\<forall>k. - (C + (\<Sum>j<length ms. shareAt b r (idx + j))) \<le> mapGet (chargeExact b r idx ms m) k \<and>
              mapGet (chargeExact b r idx ms m) k \<le> P)"
  using assms
proof (induction ms arbitrary: idx m C)
  case Nil
  then show ?case by simp
next
  case (Cons x xs)
  define s where "s = shareAt b r idx"
  define rest where "rest = (\<Sum>j<length xs. shareAt b r (Suc idx + j))"
  have split_sum: "(\<Sum>j<length (x # xs). shareAt b r (idx + j)) = s + rest"
    using sum.lessThan_Suc_shift [of "\<lambda>j. shareAt b r (idx + j)" "length xs"]
    by (simp add: s_def rest_def)
  have s0: "0 \<le> s" using Cons.prems(2) by (simp add: s_def shareAt_nonneg)
  have rest0: "0 \<le> rest"
    unfolding rest_def using Cons.prems(2) by (intro sum_nonneg) (simp add: shareAt_nonneg)
  have lim: "C + s + rest \<le> exactLimit" using Cons.prems(6) split_sum by simp
  have prev: "- C \<le> mapGet m x" "mapGet m x \<le> P" using Cons.prems(1) by simp_all
  have "\<bar>mapGet m x - s\<bar> \<le> 2 ^ 53"
    using prev s0 rest0 lim Cons.prems(3,4,5) by (simp add: exactLimit_def abs_le_iff)
  then have exact: "dsub (mapGet m x) s = mapGet m x - s" by (rule dsub_exact)
  define m1 where "m1 = AList.update x (mapGet m x - s) m"
  have J1: "\<forall>k. - (C + s) \<le> mapGet m1 k \<and> mapGet m1 k \<le> P"
    unfolding m1_def
  proof (rule bounds_update)
    show "\<forall>k. - (C + s) \<le> mapGet m k \<and> mapGet m k \<le> P"
      using bounds_mono [OF Cons.prems(1), of "C + s" P] s0 by simp
    show "- (C + s) \<le> mapGet m x - s" using prev by simp
    show "mapGet m x - s \<le> P" using prev s0 by simp
  qed
  have C1: "0 \<le> C + s" using Cons.prems(3) s0 by simp
  have lim1: "C + s + (\<Sum>j<length xs. shareAt b r (Suc idx + j)) \<le> exactLimit"
    using lim by (simp add: rest_def)
  from Cons.IH [OF J1 Cons.prems(2) C1 Cons.prems(4,5) lim1]
  have IH: "chargeMembers b r (Suc idx) xs m1 = chargeExact b r (Suc idx) xs m1"
    "\<forall>k. - (C + s + rest) \<le> mapGet (chargeExact b r (Suc idx) xs m1) k \<and>
         mapGet (chargeExact b r (Suc idx) xs m1) k \<le> P"
    by (simp_all add: rest_def)
  have step1: "chargeMembers b r idx (x # xs) m = chargeMembers b r (Suc idx) xs m1"
    using exact by (simp add: Let_def m1_def s_def shareAt_def)
  have step2: "chargeExact b r idx (x # xs) m = chargeExact b r (Suc idx) xs m1"
    by (simp add: Let_def m1_def s_def shareAt_def)
  from IH show ?case
    unfolding step1 step2 split_sum by (simp add: add.assoc)
qed

lemma applyToBalances_exact:
  assumes "\<forall>k. - C \<le> mapGet m k \<and> mapGet m k \<le> P"
    and "0 \<le> C" and "0 \<le> P" and "0 \<le> amountCents ev"
    and "C + amountCents ev \<le> exactLimit" and "P + amountCents ev \<le> exactLimit"
  shows "applyToBalances m ev = applyExact m ev \<and>
         (\<forall>k. - (C + amountCents ev) \<le> mapGet (applyExact m ev) k \<and>
              mapGet (applyExact m ev) k \<le> P + amountCents ev)"
proof (cases "split ev = []")
  case True
  then have "applyToBalances m ev = applyExact m ev" "applyExact m ev = m"
    by (simp_all add: applyToBalances_def applyExact_def)
  with bounds_mono [OF assms(1), of "C + amountCents ev" "P + amountCents ev"] assms(4)
  show ?thesis by simp
next
  case False
  define a where "a = amountCents ev"
  define n where "n = length (split ev)"
  define b where "b = a div int n"
  define r where "r = a - b * int n"
  define m1 where "m1 = chargeExact b r 0 (split ev) m"
  have n: "0 < n" using False by (simp add: n_def)
  have b0: "0 \<le> b" using assms(4) n by (simp add: b_def a_def pos_imp_zdiv_nonneg_iff)
  have total: "(\<Sum>j<length (split ev). shareAt b r (0 + j)) = a"
    using sum_shares_event [OF n, of a] by (simp add: b_def r_def n_def)
  have PP: "P \<le> exactLimit" using assms(4,6) by simp
  have lim: "C + (\<Sum>j<length (split ev). shareAt b r (0 + j)) \<le> exactLimit"
    using assms(5) total by (simp add: a_def)
  from chargeMembers_exact [OF assms(1) b0 assms(2,3) PP lim]
  have ch: "chargeMembers b r 0 (split ev) m = m1"
    and J1: "\<forall>k. - (C + a) \<le> mapGet m1 k \<and> mapGet m1 k \<le> P"
    unfolding total by (simp_all add: m1_def)
  have pp: "- (C + a) \<le> mapGet m1 (payer ev)" "mapGet m1 (payer ev) \<le> P" using J1 by simp_all
  have "\<bar>mapGet m1 (payer ev) + a\<bar> \<le> 2 ^ 53"
    using pp assms(2-6) by (simp add: exactLimit_def abs_le_iff a_def)
  then have exact: "dadd (mapGet m1 (payer ev)) a = mapGet m1 (payer ev) + a" by (rule dadd_exact)
  have e1: "applyToBalances m ev = AList.update (payer ev) (mapGet m1 (payer ev) + a) m1"
    using False ch exact by (simp add: applyToBalances_def Let_def a_def b_def r_def n_def)
  have e2: "applyExact m ev = AList.update (payer ev) (mapGet m1 (payer ev) + a) m1"
    using False by (simp add: applyExact_def Let_def a_def b_def r_def n_def m1_def)
  have "\<forall>k. - (C + a) \<le> mapGet (AList.update (payer ev) (mapGet m1 (payer ev) + a) m1) k \<and>
            mapGet (AList.update (payer ev) (mapGet m1 (payer ev) + a) m1) k \<le> P + a"
  proof (rule bounds_update)
    show "\<forall>k. - (C + a) \<le> mapGet m1 k \<and> mapGet m1 k \<le> P + a"
      using bounds_mono [OF J1, of "C + a" "P + a"] assms(4) by (simp add: a_def)
    show "- (C + a) \<le> mapGet m1 (payer ev) + a" using pp assms(4) by (simp add: a_def)
    show "mapGet m1 (payer ev) + a \<le> P + a" using pp by simp
  qed
  with e1 e2 show ?thesis by (simp add: a_def)
qed

lemma foldl_applyToBalances_exact_aux:
  assumes "\<forall>k. - C \<le> mapGet m k \<and> mapGet m k \<le> P"
    and "0 \<le> C" and "0 \<le> P" and "\<forall>ev\<in>set evs. 0 \<le> amountCents ev"
    and "C + totalAmount evs \<le> exactLimit" and "P + totalAmount evs \<le> exactLimit"
  shows "foldl applyToBalances m evs = foldl applyExact m evs"
  using assms
proof (induction evs arbitrary: m C P)
  case Nil
  then show ?case by simp
next
  case (Cons ev evs)
  have a0: "0 \<le> amountCents ev" using Cons.prems(4) by simp
  have t0: "0 \<le> totalAmount evs"
    unfolding totalAmount_def using Cons.prems(4) by (intro sum_list_nonneg) auto
  have t: "totalAmount (ev # evs) = amountCents ev + totalAmount evs"
    by (simp add: totalAmount_def)
  have l1: "C + amountCents ev \<le> exactLimit" "P + amountCents ev \<le> exactLimit"
    using Cons.prems(5,6) t t0 by simp_all
  from applyToBalances_exact [OF Cons.prems(1,2,3) a0 l1]
  have eq: "applyToBalances m ev = applyExact m ev"
    and J: "\<forall>k. - (C + amountCents ev) \<le> mapGet (applyExact m ev) k \<and>
              mapGet (applyExact m ev) k \<le> P + amountCents ev"
    by simp_all
  have "foldl applyToBalances (applyExact m ev) evs = foldl applyExact (applyExact m ev) evs"
  proof (rule Cons.IH [OF J])
    show "0 \<le> C + amountCents ev" using Cons.prems(2) a0 by simp
    show "0 \<le> P + amountCents ev" using Cons.prems(3) a0 by simp
    show "\<forall>ev\<in>set evs. 0 \<le> amountCents ev" using Cons.prems(4) by simp
    show "C + amountCents ev + totalAmount evs \<le> exactLimit" using Cons.prems(5) t by simp
    show "P + amountCents ev + totalAmount evs \<le> exactLimit" using Cons.prems(6) t by simp
  qed
  with eq show ?case by simp
qed

lemma foldl_applyToBalances_exact:
  assumes "\<forall>ev\<in>set evs. 0 \<le> amountCents ev" and "totalAmount evs \<le> exactLimit"
  shows "foldl applyToBalances [] evs = foldl applyExact [] evs"
  using foldl_applyToBalances_exact_aux [of 0 "[]" 0 evs] assms by (simp add: mapGet_def)

text \<open>
  The balances never overflow: whatever valid events a room holds, every balance is at
  most \<open>2 ^ 107\<close> in magnitude.
\<close>

lemma dsub_bounded:
  assumes "\<bar>a\<bar> \<le> 2 ^ 107" and "0 \<le> s" and "s \<le> 2 ^ 53"
  shows "\<bar>dsub a s\<bar> \<le> 2 ^ 107"
  unfolding dsub_def using assms by (intro roundDouble_bounded) simp

lemma dadd_bounded:
  assumes "\<bar>a\<bar> \<le> 2 ^ 107" and "0 \<le> s" and "s \<le> 2 ^ 53"
  shows "\<bar>dadd a s\<bar> \<le> 2 ^ 107"
  unfolding dadd_def using assms by (intro roundDouble_bounded) simp

lemma chargeMembers_bounded:
  assumes "\<forall>k. \<bar>mapGet m k\<bar> \<le> 2 ^ 107" and "0 \<le> b" and "b < 2 ^ 53"
  shows "\<forall>k. \<bar>mapGet (chargeMembers b r idx ms m) k\<bar> \<le> 2 ^ 107"
  using assms(1)
proof (induction ms arbitrary: idx m)
  case Nil
  then show ?case by simp
next
  case (Cons x xs)
  define s where "s = b + (if int idx < r then 1 else 0)"
  have s: "0 \<le> s" "s \<le> 2 ^ 53" using assms(2,3) by (simp_all add: s_def)
  have "\<bar>mapGet m x\<bar> \<le> 2 ^ 107" using Cons.prems by simp
  then have v: "\<bar>dsub (mapGet m x) s\<bar> \<le> 2 ^ 107" using s by (rule dsub_bounded)
  have "\<forall>k. \<bar>mapGet (AList.update x (dsub (mapGet m x) s) m) k\<bar> \<le> 2 ^ 107"
    using Cons.prems v by (simp add: mapGet_update)
  from Cons.IH [OF this] show ?case by (simp add: Let_def s_def)
qed

lemma applyToBalances_bounded:
  assumes "\<forall>k. \<bar>mapGet m k\<bar> \<le> 2 ^ 107"
    and "0 \<le> amountCents ev" and "amountCents ev \<le> maxSafeInteger"
  shows "\<forall>k. \<bar>mapGet (applyToBalances m ev) k\<bar> \<le> 2 ^ 107"
proof (cases "split ev = []")
  case True
  with assms(1) show ?thesis by (simp add: applyToBalances_def)
next
  case False
  define n where "n = int (length (split ev))"
  define b where "b = amountCents ev div n"
  define m1 where "m1 = chargeMembers b (amountCents ev - b * n) 0 (split ev) m"
  have n: "0 < n" using False by (simp add: n_def)
  have b0: "0 \<le> b" using assms(2) n by (simp add: b_def pos_imp_zdiv_nonneg_iff)
  have "b \<le> amountCents ev"
    using assms(2) n zdiv_mono2 [of "amountCents ev" 1 n] by (simp add: b_def)
  with assms(3) have b1: "b < 2 ^ 53" by (simp add: maxSafeInteger_def)
  have J: "\<forall>k. \<bar>mapGet m1 k\<bar> \<le> 2 ^ 107"
    unfolding m1_def using assms(1) b0 b1 by (rule chargeMembers_bounded)
  then have "\<bar>mapGet m1 (payer ev)\<bar> \<le> 2 ^ 107" by simp
  moreover have "amountCents ev \<le> 2 ^ 53" using assms(3) by (simp add: maxSafeInteger_def)
  ultimately have "\<bar>dadd (mapGet m1 (payer ev)) (amountCents ev)\<bar> \<le> 2 ^ 107"
    using assms(2) by (intro dadd_bounded)
  with J have "\<forall>k. \<bar>mapGet (AList.update (payer ev) (dadd (mapGet m1 (payer ev)) (amountCents ev)) m1) k\<bar>
                 \<le> 2 ^ 107"
    by (simp add: mapGet_update)
  moreover have "applyToBalances m ev =
                   AList.update (payer ev) (dadd (mapGet m1 (payer ev)) (amountCents ev)) m1"
    using False by (simp add: applyToBalances_def Let_def m1_def b_def n_def)
  ultimately show ?thesis by simp
qed

lemma foldl_applyToBalances_bounded:
  assumes "\<forall>k. \<bar>mapGet m k\<bar> \<le> 2 ^ 107"
    and "\<forall>ev\<in>set evs. 0 \<le> amountCents ev \<and> amountCents ev \<le> maxSafeInteger"
  shows "\<forall>k. \<bar>mapGet (foldl applyToBalances m evs) k\<bar> \<le> 2 ^ 107"
  using assms
proof (induction evs arbitrary: m)
  case Nil
  then show ?case by simp
next
  case (Cons ev evs)
  have "\<forall>k. \<bar>mapGet (applyToBalances m ev) k\<bar> \<le> 2 ^ 107"
    using Cons.prems by (intro applyToBalances_bounded) simp_all
  from Cons.IH [OF this] Cons.prems(2) show ?case by simp
qed

lemma balances_stay_finite:
  assumes "\<forall>ev\<in>set evs. 0 \<le> amountCents ev \<and> amountCents ev \<le> maxSafeInteger"
  shows "\<bar>mapGet (foldl applyToBalances [] evs) k\<bar> \<le> 2 ^ 107"
  using foldl_applyToBalances_bounded [of "[]" evs] assms by (simp add: mapGet_def)

lemma list_storedEvents:
  "resolveChannel L channel = Inr key \<Longrightarrow> list L channel = Inr (sortByTs (storedEvents L key))"
  by (simp add: list_def storedEvents_def sortByTs_def split: option.splits)

lemma mset_sortByTs [simp]: "mset (sortByTs evs) = mset evs"
  by (simp add: sortByTs_def)

lemma set_sortByTs [simp]: "set (sortByTs evs) = set evs"
  by (simp add: sortByTs_def)

lemma totalAmount_sortByTs [simp]: "totalAmount (sortByTs evs) = totalAmount evs"
proof -
  have "mset (map amountCents (sortByTs evs)) = mset (map amountCents evs)"
    by simp
  then show ?thesis unfolding totalAmount_def by (metis sum_mset_sum_list)
qed

lemma balances_storedEvents:
  assumes "resolveChannel L channel = Inr key"
  shows "balances collate L channel =
           Inr (sort_key (\<lambda>b. collate (member b))
                  (map (\<lambda>(k, v). \<lparr> member = k, cents = v \<rparr>)
                     (foldl applyToBalances [] (sortByTs (storedEvents L key)))))"
  by (simp add: balances_def list_storedEvents [OF assms])

lemma balances_returns:
  assumes "resolveChannel L channel = Inr key"
  shows "\<exists>bs. balances collate L channel = Inr bs"
  by (simp add: balances_storedEvents [OF assms])

lemma balances_sum_zero:
  assumes "resolveChannel L channel = Inr key"
    and "\<forall>ev\<in>set (storedEvents L key). 0 \<le> amountCents ev"
    and "totalAmount (storedEvents L key) \<le> exactLimit"
    and "balances collate L channel = Inr bs"
  shows "sum_list (map cents bs) = 0"
proof -
  have "foldl applyToBalances [] (sortByTs (storedEvents L key)) =
        foldl applyExact [] (sortByTs (storedEvents L key))"
    using assms(2,3) by (intro foldl_applyToBalances_exact) simp_all
  with assms(4) have bs: "bs = sort_key (\<lambda>b. collate (member b))
              (map (\<lambda>(k, v). \<lparr> member = k, cents = v \<rparr>)
                 (foldl applyExact [] (sortByTs (storedEvents L key))))"
    by (simp add: balances_storedEvents [OF assms(1)])
  show ?thesis
    unfolding bs by (simp only: sum_list_sort_key_cents cents_entries sum_foldl_applyExact) simp
qed

lemma stored_tripLedger: "storedEvents tripLedger ''trip'' = [dinner]"
  by (simp add: storedEvents_def tripLedger_def)

text \<open>
  C1, as amended. For every room whose events have amounts that are not negative (the
  amount of a valid event is positive) and total at most \<open>2 ^ 53\<close> cents, the balances
  that \<open>balances\<close> returns sum to exactly zero cents; the amounts need not be divisible
  by the number of split members. The call returns for every channel identifier that
  converts to a string. Up to that total every balance is an integer that the doubles
  of the source hold exactly.
\<close>

theorem balances_conserve_money:
  assumes "resolveChannel L channel = Inr key"
    and "\<forall>ev\<in>set (storedEvents L key). 0 \<le> amountCents ev"
    and "totalAmount (storedEvents L key) \<le> exactLimit"
  shows "\<exists>bs. balances collate L channel = Inr bs \<and> sum_list (map cents bs) = 0"
  using balances_returns [OF assms(1)] balances_sum_zero [OF assms] by blast

theorem balances_conserve_money_witness:
  "resolveChannel tripLedger (JStr ''trip'') = Inr ''trip'' \<and>
   storedEvents tripLedger ''trip'' = [dinner] \<and> 0 \<le> amountCents dinner \<and>
   totalAmount [dinner] \<le> exactLimit \<and>
   (\<exists>bs. balances length tripLedger (JStr ''trip'') = Inr bs \<and> sum_list (map cents bs) = 0)"
proof -
  have h1: "resolveChannel tripLedger (JStr ''trip'') = Inr ''trip''"
    by (rule resolveChannel_trip)
  have st: "storedEvents tripLedger ''trip'' = [dinner]"
    by (rule stored_tripLedger)
  have a: "0 \<le> amountCents dinner" and t: "totalAmount [dinner] \<le> exactLimit"
    by (simp_all add: dinner_def totalAmount_def exactLimit_def)
  have h2: "\<forall>ev\<in>set (storedEvents tripLedger ''trip''). 0 \<le> amountCents ev"
    using a by (simp add: st)
  have h3: "totalAmount (storedEvents tripLedger ''trip'') \<le> exactLimit"
    using t by (simp add: st)
  from balances_conserve_money [OF h1 h2 h3] h1 st a t show ?thesis by blast
qed

lemma mapGet_chargeExact_other:
  "k \<notin> set ms \<Longrightarrow> mapGet (chargeExact b r idx ms m) k = mapGet m k"
  by (induction ms arbitrary: idx m) (auto simp: Let_def mapGet_update)

lemma mapGet_chargeExact_nth:
  "distinct ms \<Longrightarrow> i < length ms \<Longrightarrow>
   mapGet (chargeExact b r idx ms m) (ms ! i) = mapGet m (ms ! i) - shareAt b r (idx + i)"
proof (induction ms arbitrary: idx m i)
  case Nil
  then show ?case by simp
next
  case (Cons x xs)
  show ?case
  proof (cases i)
    case 0
    with Cons.prems show ?thesis
      by (simp add: Let_def mapGet_chargeExact_other mapGet_update shareAt_def)
  next
    case (Suc j)
    with Cons.prems have "xs ! j \<noteq> x" by auto
    with Suc Cons.prems Cons.IH [of j "Suc idx"] show ?thesis
      by (simp add: Let_def mapGet_update)
  qed
qed


lemma mapGet_chargeMembers_other:
  "k \<notin> set ms \<Longrightarrow> mapGet (chargeMembers b r idx ms m) k = mapGet m k"
  by (induction ms arbitrary: idx m) (auto simp: Let_def mapGet_update)

lemma mapGet_chargeMembers_nth:
  "distinct ms \<Longrightarrow> i < length ms \<Longrightarrow>
   mapGet (chargeMembers b r idx ms m) (ms ! i) = dsub (mapGet m (ms ! i)) (shareAt b r (idx + i))"
proof (induction ms arbitrary: idx m i)
  case Nil
  then show ?case by simp
next
  case (Cons x xs)
  show ?case
  proof (cases i)
    case 0
    with Cons.prems show ?thesis
      by (simp add: Let_def mapGet_chargeMembers_other mapGet_update shareAt_def)
  next
    case (Suc j)
    with Cons.prems have "xs ! j \<noteq> x" by auto
    with Suc Cons.prems Cons.IH [of j "Suc idx"] show ?thesis
      by (simp add: Let_def mapGet_update)
  qed
qed

lemma mapGet_applyToBalances:
  assumes "split ev \<noteq> []"
  shows "mapGet (applyToBalances m ev) k =
           (if k = payer ev
            then dadd (mapGet (chargeMembers (amountCents ev div int (length (split ev)))
                     (amountCents ev - amountCents ev div int (length (split ev)) * int (length (split ev)))
                     0 (split ev) m) k) (amountCents ev)
            else mapGet (chargeMembers (amountCents ev div int (length (split ev)))
                     (amountCents ev - amountCents ev div int (length (split ev)) * int (length (split ev)))
                     0 (split ev) m) k)"
  using assms by (simp add: applyToBalances_def Let_def mapGet_update)

text \<open>
  C2. For an event with a non-empty split of distinct members (as \<open>normalizeEvent\<close>
  builds it), the balance calculator charges the member at index \<open>i\<close> of the split the
  base share \<open>amountCents div n\<close>, plus one cent exactly when \<open>i\<close> is below the remainder
  \<open>r = amountCents - base * n\<close>; the payer is credited the whole amount; \<open>0 \<le> r < n\<close> and
  the shares sum to \<open>amountCents\<close>. The share is subtracted from the balance the member
  had, and the credit added, as doubles; whenever the results are at most \<open>2 ^ 53\<close> in
  magnitude, the new balance is exactly the old one minus the share plus the credit.
  100 cents split three ways are charged as 34, 33, 33 in split order.
\<close>

theorem shares_of_an_event:
  assumes "split ev \<noteq> []" and "distinct (split ev)"
  shows "(let n = length (split ev);
              base = amountCents ev div int n;
              r = amountCents ev - base * int n
          in 0 \<le> r \<and> r < int n \<and>
             (\<forall>i<n. mapGet (applyToBalances m ev) (split ev ! i) =
                       (if split ev ! i = payer ev
                        then dadd (dsub (mapGet m (split ev ! i)) (base + (if int i < r then 1 else 0)))
                               (amountCents ev)
                        else dsub (mapGet m (split ev ! i)) (base + (if int i < r then 1 else 0)))) \<and>
             (\<forall>i<n. \<bar>mapGet m (split ev ! i) - (base + (if int i < r then 1 else 0))\<bar> \<le> exactLimit \<and>
                    \<bar>mapGet m (split ev ! i) - (base + (if int i < r then 1 else 0))
                       + (if split ev ! i = payer ev then amountCents ev else 0)\<bar> \<le> exactLimit \<longrightarrow>
                    mapGet (applyToBalances m ev) (split ev ! i) =
                       mapGet m (split ev ! i) - (base + (if int i < r then 1 else 0))
                       + (if split ev ! i = payer ev then amountCents ev else 0)) \<and>
             (\<Sum>i<n. base + (if int i < r then 1 else 0)) = amountCents ev)
         \<and> applyToBalances []
              \<lparr> txId = ''t2'', payer = ''dave'', amountCents = 100,
                split = [''alice'', ''bob'', ''carol''], note_text = [], ts = (0, 0),
                by_id = JNull \<rparr>
            = [(''alice'', - 34), (''bob'', - 33), (''carol'', - 33), (''dave'', 100)]"
proof -
  define n where "n = length (split ev)"
  define base where "base = amountCents ev div int n"
  define r where "r = amountCents ev - base * int n"
  define sh where "sh = (\<lambda>i. base + (if int i < r then 1 else (0 :: int)))"
  have n: "0 < n" using assms(1) by (simp add: n_def)
  have r: "0 \<le> r" "r < int n"
    using remainder_bounds [OF n, of "amountCents ev"] by (simp_all add: r_def base_def)
  have total: "(\<Sum>i<n. sh i) = amountCents ev"
    using sum_shares_event [OF n, of "amountCents ev"] by (simp add: shareAt_def r_def base_def sh_def)
  have each: "mapGet (applyToBalances m ev) (split ev ! i) =
                (if split ev ! i = payer ev
                 then dadd (dsub (mapGet m (split ev ! i)) (sh i)) (amountCents ev)
                 else dsub (mapGet m (split ev ! i)) (sh i))" if "i < n" for i
  proof -
    have h: "mapGet (chargeMembers base r 0 (split ev) m) (split ev ! i) =
               dsub (mapGet m (split ev ! i)) (sh i)"
      using that assms(2) mapGet_chargeMembers_nth [of "split ev" i base r 0 m]
      by (simp add: n_def shareAt_def sh_def)
    have "mapGet (applyToBalances m ev) (split ev ! i) =
            (if split ev ! i = payer ev
             then dadd (mapGet (chargeMembers base r 0 (split ev) m) (split ev ! i)) (amountCents ev)
             else mapGet (chargeMembers base r 0 (split ev) m) (split ev ! i))"
      unfolding base_def r_def n_def by (rule mapGet_applyToBalances [OF assms(1)])
    then show ?thesis unfolding h .
  qed
  have exact: "mapGet (applyToBalances m ev) (split ev ! i) =
                 mapGet m (split ev ! i) - sh i
                 + (if split ev ! i = payer ev then amountCents ev else 0)"
    if "i < n" and "\<bar>mapGet m (split ev ! i) - sh i\<bar> \<le> exactLimit"
      and "\<bar>mapGet m (split ev ! i) - sh i
            + (if split ev ! i = payer ev then amountCents ev else 0)\<bar> \<le> exactLimit" for i
  proof -
    from that(2) have s: "dsub (mapGet m (split ev ! i)) (sh i) = mapGet m (split ev ! i) - sh i"
      by (intro dsub_exact) (simp add: exactLimit_def)
    show ?thesis
    proof (cases "split ev ! i = payer ev")
      case True
      with that(3) have "dadd (mapGet m (split ev ! i) - sh i) (amountCents ev) =
                           mapGet m (split ev ! i) - sh i + amountCents ev"
        by (intro dadd_exact) (simp add: exactLimit_def)
      with each [OF that(1)] s True show ?thesis by simp
    next
      case False
      with each [OF that(1)] s show ?thesis by simp
    qed
  qed
  have example: "applyToBalances []
              \<lparr> txId = ''t2'', payer = ''dave'', amountCents = 100,
                split = [''alice'', ''bob'', ''carol''], note_text = [], ts = (0, 0),
                by_id = JNull \<rparr>
            = [(''alice'', - 34), (''bob'', - 33), (''carol'', - 33), (''dave'', 100)]"
    by (simp add: applyToBalances_def mapGet_def dadd_def dsub_def roundDouble_exact)
  from r total each exact example show ?thesis
    unfolding Let_def n_def [symmetric] base_def [symmetric] r_def [symmetric] sh_def
    by blast
qed

theorem shares_of_an_event_witness:
  "split dinner \<noteq> [] \<and> distinct (split dinner) \<and>
   mapGet (applyToBalances [] dinner) ''alice'' = 0 - 34 + 100 \<and>
   mapGet (applyToBalances [] dinner) ''bob'' = 0 - 33 \<and>
   mapGet (applyToBalances [] dinner) ''carol'' = 0 - 33"
proof -
  have h1: "split dinner \<noteq> []" and h2: "distinct (split dinner)"
    by (simp_all add: dinner_def)
  note exact = shares_of_an_event [OF h1 h2, of "[]", unfolded Let_def,
      THEN conjunct1, THEN conjunct2, THEN conjunct2, THEN conjunct2, THEN conjunct1, rule_format]
  have "mapGet (applyToBalances [] dinner) ''alice'' = 0 - 34 + 100"
    using exact [of 0] by (simp add: dinner_def mapGet_def exactLimit_def)
  moreover have "mapGet (applyToBalances [] dinner) ''bob'' = 0 - 33"
    using exact [of 1] by (simp add: dinner_def mapGet_def exactLimit_def)
  moreover have "mapGet (applyToBalances [] dinner) ''carol'' = 0 - 33"
    using exact [of 2] by (simp add: dinner_def mapGet_def exactLimit_def)
  ultimately show ?thesis using h1 h2 by blast
qed

section \<open>Trimming\<close>

lemma last_dropWhile: "dropWhile P xs \<noteq> [] \<Longrightarrow> last (dropWhile P xs) = last xs"
  by (induction xs) (auto split: if_splits)

lemma trimmed_trim: "trimmed (trim s)"
proof (cases "trim s = []")
  case True
  then show ?thesis by (simp add: trimmed_def)
next
  case False
  define u where "u = dropWhile isWhiteSpace s"
  define v where "v = dropWhile isWhiteSpace (rev u)"
  have t: "trim s = rev v" by (simp add: trim_def u_def v_def)
  with False have v: "v \<noteq> []" by simp
  then have u: "u \<noteq> []" by (auto simp: v_def)
  have "\<not> isWhiteSpace (hd v)" using v unfolding v_def by (rule hd_dropWhile)
  moreover have "last v = hd u"
    using last_dropWhile [of isWhiteSpace "rev u"] v u by (simp add: v_def last_rev)
  moreover have "\<not> isWhiteSpace (hd u)" using u unfolding u_def by (rule hd_dropWhile)
  ultimately show ?thesis using v by (simp add: trimmed_def t hd_rev last_rev)
qed

lemma dropWhile_self: "xs = [] \<or> \<not> P (hd xs) \<Longrightarrow> dropWhile P xs = xs"
  by (cases xs) auto

lemma trim_trimmed:
  assumes "trimmed s"
  shows "trim s = s"
proof -
  have "dropWhile isWhiteSpace s = s"
    using assms by (intro dropWhile_self) (auto simp: trimmed_def)
  moreover have "dropWhile isWhiteSpace (rev s) = rev s"
    using assms by (intro dropWhile_self) (auto simp: trimmed_def hd_rev)
  ultimately show ?thesis by (simp add: trim_def)
qed

lemma trim_trim [simp]: "trim (trim s) = trim s"
  by (rule trim_trimmed [OF trimmed_trim])

lemma trim_Nil [simp]: "trim [] = []"
  by (simp add: trim_def)

section \<open>Channels\<close>

lemma normalizeText_JStr [simp]: "normalizeText (JStr s) = Inr (trim s)"
  by (cases "s = []") (simp_all add: normalizeText_def)

lemma resolveChannel_JStr:
  "resolveChannel L (JStr s) = Inr (if trim s \<noteq> [] then trim s else defaultChannel L)"
  by (simp add: resolveChannel_def)


lemma newLedger_defaultChannel:
  "trimmed (defaultChannel (newLedger cfg)) \<and> defaultChannel (newLedger cfg) \<noteq> []"
  by (cases cfg) (simp_all add: newLedger_def trimmed_trim, simp_all add: trimmed_def isWhiteSpace_def)


lemma resolveChannel_rooms [simp]: "resolveChannel (L\<lparr>rooms := rs\<rparr>) c = resolveChannel L c"
  by (simp add: resolveChannel_def cong: if_cong)

text \<open>Every operation reads its channel argument through \<open>resolveChannel\<close> only.\<close>

lemma getRoom_cong:
  "resolveChannel L c = resolveChannel L c' \<Longrightarrow> getRoom L c = getRoom L c'"
  by (simp add: getRoom_def)

lemma addEvent_cong:
  assumes "resolveChannel L c = resolveChannel L c'"
  shows "addEvent now L c ev = addEvent now L c' ev"
  unfolding addEvent_def getRoom_cong [OF assms] by (rule refl)

lemma list_cong:
  "resolveChannel L c = resolveChannel L c' \<Longrightarrow> list L c = list L c'"
  by (simp add: list_def)

lemma balances_cong:
  assumes "resolveChannel L c = resolveChannel L c'"
  shows "balances collate L c = balances collate L c'"
  unfolding balances_def list_cong [OF assms] by (rule refl)

lemma settlements_cong:
  assumes "resolveChannel L c = resolveChannel L c'"
  shows "settlements collate L c = settlements collate L c'"
  unfolding settlements_def balances_cong [OF assms] by (rule refl)

lemma summary_cong:
  "resolveChannel L c = resolveChannel L c' \<Longrightarrow> summary collate L c = summary collate L c'"
  by (simp add: summary_def)

lemma clearChannel_cong:
  "resolveChannel L c = resolveChannel L c' \<Longrightarrow> clearChannel L c = clearChannel L c'"
  by (simp add: clearChannel_def)

lemma exportRoom_cong:
  "resolveChannel L c = resolveChannel L c' \<Longrightarrow> exportRoom L c = exportRoom L c'"
  by (simp add: exportRoom_def)

lemma normalizeSnapshot_cong:
  "resolveChannel L c = resolveChannel L c' \<Longrightarrow>
   normalizeSnapshot clock L (JObj ((''channel'', c) # props)) =
   normalizeSnapshot clock L (JObj ((''channel'', c') # props))"
  by (simp add: normalizeSnapshot_def)

lemma importRoom_cong:
  assumes "resolveChannel L c = resolveChannel L c'"
  shows "importRoom clock L (JObj ((''channel'', c) # props)) replace =
         importRoom clock L (JObj ((''channel'', c') # props)) replace"
  unfolding importRoom_def normalizeSnapshot_cong [OF assms] by (rule refl)

section \<open>Validation\<close>

text \<open>What an accepted event says about the raw input, and back.\<close>

lemma normalizeEvent_SomeD:
  assumes "normalizeEvent now ev = Inr (Some n)"
  shows "\<exists>tx p atext sp nt.
           truthy ev \<and> typeofObject ev \<and>
           normalizeText (getProp ev ''txId'') = Inr tx \<and>
           normalizeMember (getProp ev ''payer'') = Inr p \<and>
           ToString (getProp ev ''amountCents'') = Inr atext \<and>
           parseMembers (getProp ev ''split'') = Inr sp \<and>
           normalizeText (getProp ev ''note'') = Inr nt \<and>
           tx \<noteq> [] \<and> p \<noteq> [] \<and> isSafeInteger (parseInt10 atext) \<and>
           0 < the (parseInt10 atext) \<and> sp \<noteq> [] \<and>
           n = \<lparr> txId = tx, payer = p, amountCents = the (parseInt10 atext),
                 split = sp, note_text = nt,
                 ts = (case getProp ev ''ts'' of JNum m e \<Rightarrow> (m, e) | _ \<Rightarrow> (now, 0)),
                 by_id = (if getProp ev ''by'' = JUndefined then JNull else getProp ev ''by'') \<rparr>"
proof -
  from assms have g: "truthy ev" "typeofObject ev"
    by (auto simp: normalizeEvent_def split: if_splits)
  from assms g obtain tx where tx: "normalizeText (getProp ev ''txId'') = Inr tx"
    by (cases "normalizeText (getProp ev ''txId'')") (simp_all add: normalizeEvent_def)
  from assms g tx obtain p where p: "normalizeMember (getProp ev ''payer'') = Inr p"
    by (cases "normalizeMember (getProp ev ''payer'')") (simp_all add: normalizeEvent_def)
  from assms g tx p obtain atext where a: "ToString (getProp ev ''amountCents'') = Inr atext"
    by (cases "ToString (getProp ev ''amountCents'')") (simp_all add: normalizeEvent_def)
  from assms g tx p a obtain sp where sp: "parseMembers (getProp ev ''split'') = Inr sp"
    by (cases "parseMembers (getProp ev ''split'')") (simp_all add: normalizeEvent_def)
  let ?bad = "tx = [] \<or> p = [] \<or> \<not> isSafeInteger (parseInt10 atext) \<or>
              the (parseInt10 atext) \<le> 0 \<or> length sp = 0"
  from assms g tx p a sp have ok: "\<not> ?bad"
    by (cases ?bad) (simp_all add: normalizeEvent_def Let_def)
  from assms g tx p a sp ok obtain nt where nt: "normalizeText (getProp ev ''note'') = Inr nt"
    by (cases "normalizeText (getProp ev ''note'')") (simp_all add: normalizeEvent_def Let_def)
  from assms g tx p a sp ok nt
  have "n = \<lparr> txId = tx, payer = p, amountCents = the (parseInt10 atext),
      split = sp, note_text = nt,
      ts = (case getProp ev ''ts'' of JNum m e \<Rightarrow> (m, e) | _ \<Rightarrow> (now, 0)),
      by_id = (if getProp ev ''by'' = JUndefined then JNull else getProp ev ''by'') \<rparr>"
    by (simp add: normalizeEvent_def Let_def)
  with g tx p a sp ok nt show ?thesis by auto
qed

lemma normalizeEvent_SomeI:
  assumes "truthy ev" and "typeofObject ev"
    and "normalizeText (getProp ev ''txId'') = Inr tx"
    and "normalizeMember (getProp ev ''payer'') = Inr p"
    and "ToString (getProp ev ''amountCents'') = Inr atext"
    and "parseMembers (getProp ev ''split'') = Inr sp"
    and "normalizeText (getProp ev ''note'') = Inr nt"
    and "tx \<noteq> []" and "p \<noteq> []" and "isSafeInteger (parseInt10 atext)"
    and "0 < the (parseInt10 atext)" and "sp \<noteq> []"
  shows "normalizeEvent now ev =
           Inr (Some \<lparr> txId = tx, payer = p, amountCents = the (parseInt10 atext),
                 split = sp, note_text = nt,
                 ts = (case getProp ev ''ts'' of JNum m e \<Rightarrow> (m, e) | _ \<Rightarrow> (now, 0)),
                 by_id = (if getProp ev ''by'' = JUndefined then JNull else getProp ev ''by'') \<rparr>)"
  using assms by (simp add: normalizeEvent_def Let_def)

lemma normalizeEvent_clock:
  assumes "normalizeEvent now ev = Inr (Some n)"
  shows "normalizeEvent now' ev =
           Inr (Some (n\<lparr>ts := (case getProp ev ''ts'' of JNum m e \<Rightarrow> (m, e) | _ \<Rightarrow> (now', 0))\<rparr>))"
proof -
  from normalizeEvent_SomeD [OF assms] obtain tx p atext sp nt where
    h: "truthy ev" "typeofObject ev"
       "normalizeText (getProp ev ''txId'') = Inr tx"
       "normalizeMember (getProp ev ''payer'') = Inr p"
       "ToString (getProp ev ''amountCents'') = Inr atext"
       "parseMembers (getProp ev ''split'') = Inr sp"
       "normalizeText (getProp ev ''note'') = Inr nt"
       "tx \<noteq> []" "p \<noteq> []" "isSafeInteger (parseInt10 atext)"
       "0 < the (parseInt10 atext)" "sp \<noteq> []"
    and n: "n = \<lparr> txId = tx, payer = p, amountCents = the (parseInt10 atext),
                 split = sp, note_text = nt,
                 ts = (case getProp ev ''ts'' of JNum m e \<Rightarrow> (m, e) | _ \<Rightarrow> (now, 0)),
                 by_id = (if getProp ev ''by'' = JUndefined then JNull else getProp ev ''by'') \<rparr>"
    by blast
  show ?thesis
    unfolding normalizeEvent_SomeI [OF h, of now'] n by simp
qed

text \<open>
  When every field converts to a string, the event is accepted exactly when \<open>txId\<close> and
  \<open>payer\<close> are non-empty after normalization, the amount read by \<open>parseInt\<close> is a positive
  safe integer and the split is non-empty after normalization; otherwise the result is
  \<open>null\<close>.
\<close>

lemma normalizeEvent_accepts_iff:
  assumes "truthy ev" and "typeofObject ev"
    and "normalizeText (getProp ev ''txId'') = Inr tx"
    and "normalizeMember (getProp ev ''payer'') = Inr p"
    and "ToString (getProp ev ''amountCents'') = Inr atext"
    and "parseMembers (getProp ev ''split'') = Inr sp"
    and "normalizeText (getProp ev ''note'') = Inr nt"
  shows "(\<exists>n. normalizeEvent now ev = Inr (Some n)) \<longleftrightarrow>
         tx \<noteq> [] \<and> p \<noteq> [] \<and>
         (\<exists>a. parseInt10 atext = Some a \<and> 0 < a \<and> a \<le> maxSafeInteger) \<and> sp \<noteq> []"
    and "(normalizeEvent now ev = Inr None) \<longleftrightarrow>
         \<not> (tx \<noteq> [] \<and> p \<noteq> [] \<and>
            (\<exists>a. parseInt10 atext = Some a \<and> 0 < a \<and> a \<le> maxSafeInteger) \<and> sp \<noteq> [])"
  using assms unfolding normalizeEvent_def
  by (auto simp: Let_def isSafeInteger_def split: option.splits)

lemma addEvent_rejection_keeps_store:
  "normalizeEvent now ev = Inr None \<Longrightarrow>
   addEvent now L channel ev = Inr (AddFailed ''Invalid expense event payload.'', L)"
  by (simp add: addEvent_def)

lemma normalizeEvent_hostileRaw: "normalizeEvent now hostileRaw = Inl TypeError"
  by code_simp

text \<open>
  C8, at the failing input. The event \<open>hostileRaw\<close> has an empty \<open>txId\<close>, so it is not
  valid; yet \<open>normalizeEvent\<close> converts the split member before it looks at \<open>txId\<close>, the
  conversion throws, and \<open>addEvent\<close> ends with a TypeError instead of a structured failure.
  The ledger is as before, since the exception precedes every write.
\<close>

theorem addEvent_throws_on_unconvertible_member:
  "getProp hostileRaw ''txId'' = JStr [] \<and>
   normalizeEvent now hostileRaw = Inl TypeError \<and>
   addEvent now L channel hostileRaw = Inl TypeError"
  by (simp add: addEvent_def normalizeEvent_hostileRaw) (simp add: hostileRaw_def)

theorem addEvent_throws_on_unconvertible_member_witness:
  "getProp hostileRaw ''txId'' = JStr [] \<and>
   normalizeEvent 0 hostileRaw = Inl TypeError \<and>
   addEvent 0 tripLedger (JStr ''trip'') hostileRaw = Inl TypeError"
  by (rule addEvent_throws_on_unconvertible_member)

section \<open>Idempotent merge\<close>

text \<open>
  C3. A valid event applied to a fresh room (no room under the key yet, or an empty one)
  is stored once: the first application answers \<open>duplicate: false\<close> and leaves the room
  with exactly this event; the second application, at any later clock reading, answers
  \<open>ok\<close> with \<open>duplicate: true\<close>, returns the same event up to the default of \<open>ts\<close>, throws
  nothing and leaves the whole ledger as it was.
\<close>

theorem addEvent_idempotent:
  assumes "normalizeEvent now ev = Inr (Some n)"
    and "resolveChannel L channel = Inr key"
    and "rooms L key = None \<or> rooms L key = Some emptyRoom"
  shows "\<exists>L1. addEvent now L channel ev = Inr (AddOk False n, L1) \<and>
              L1 = L\<lparr>rooms := (rooms L)(key \<mapsto> \<lparr> events = [n], txSeen = {txId n} \<rparr>)\<rparr> \<and>
              (\<exists>n' t'. addEvent now' L1 channel ev = Inr (AddOk True n', L1) \<and>
                        n' = n\<lparr>ts := t'\<rparr>)"
proof -
  define L1 where "L1 = L\<lparr>rooms := (rooms L)(key \<mapsto> \<lparr> events = [n], txSeen = {txId n} \<rparr>)\<rparr>"
  have first: "addEvent now L channel ev = Inr (AddOk False n, L1)"
    using assms by (auto simp: addEvent_def getRoom_def emptyRoom_def L1_def)
  have r: "resolveChannel L1 channel = Inr key"
    using assms(2) by (simp add: L1_def)
  obtain t' where n': "normalizeEvent now' ev = Inr (Some (n\<lparr>ts := t'\<rparr>))"
    using normalizeEvent_clock [OF assms(1), of now'] by blast
  have "addEvent now' L1 channel ev = Inr (AddOk True (n\<lparr>ts := t'\<rparr>), L1)"
    using n' r by (simp add: addEvent_def getRoom_def L1_def)
  with first show ?thesis unfolding L1_def by blast
qed

theorem addEvent_idempotent_witness:
  "normalizeEvent 7 dinnerRaw = Inr (Some dinner) \<and>
   resolveChannel (newLedger JUndefined) (JStr ''trip'') = Inr ''trip'' \<and>
   rooms (newLedger JUndefined) ''trip'' = None \<and>
   (\<exists>L1. addEvent 7 (newLedger JUndefined) (JStr ''trip'') dinnerRaw = Inr (AddOk False dinner, L1) \<and>
      L1 = (newLedger JUndefined)\<lparr>rooms := (rooms (newLedger JUndefined))
              (''trip'' \<mapsto> \<lparr> events = [dinner], txSeen = {txId dinner} \<rparr>)\<rparr> \<and>
      (\<exists>n' t'. addEvent 9 L1 (JStr ''trip'') dinnerRaw = Inr (AddOk True n', L1) \<and>
                n' = dinner\<lparr>ts := t'\<rparr>))"
proof -
  have h1: "normalizeEvent 7 dinnerRaw = Inr (Some dinner)"
    by (rule normalizeEvent_dinnerRaw)
  have h2: "resolveChannel (newLedger JUndefined) (JStr ''trip'') = Inr ''trip''"
    by (rule resolveChannel_trip)
  have h3: "rooms (newLedger JUndefined) ''trip'' = None"
    by (simp add: newLedger_def)
  from addEvent_idempotent [OF h1 h2 disjI1 [OF h3], of 9] h1 h2 h3 show ?thesis by blast
qed

section \<open>Room keys\<close>

lemma resolveChannel_trim:
  "trim s = trim s' \<Longrightarrow> resolveChannel L (JStr s) = resolveChannel L (JStr s')"
  by (simp add: resolveChannel_JStr)

text \<open>
  C5, as amended. The room key of a channel identifier is the identifier trimmed, in
  the letter case it was given (the default channel when nothing is left). Two
  identifiers that are equal after trimming therefore name the same room for add, list,
  balances, settlements, summary, clear, export and import.
\<close>

theorem room_key_is_trimmed_identifier:
  assumes "trim s = trim s'"
  shows "resolveChannel L (JStr s) = Inr (if trim s \<noteq> [] then trim s else defaultChannel L) \<and>
         resolveChannel L (JStr s) = resolveChannel L (JStr s') \<and>
         addEvent now L (JStr s) ev = addEvent now L (JStr s') ev \<and>
         list L (JStr s) = list L (JStr s') \<and>
         balances collate L (JStr s) = balances collate L (JStr s') \<and>
         settlements collate L (JStr s) = settlements collate L (JStr s') \<and>
         summary collate L (JStr s) = summary collate L (JStr s') \<and>
         clearChannel L (JStr s) = clearChannel L (JStr s') \<and>
         exportRoom L (JStr s) = exportRoom L (JStr s') \<and>
         importRoom clock L (JObj ((''channel'', JStr s) # props)) replace =
           importRoom clock L (JObj ((''channel'', JStr s') # props)) replace"
proof -
  have eq: "resolveChannel L (JStr s) = resolveChannel L (JStr s')"
    using assms by (rule resolveChannel_trim)
  show ?thesis
    using eq resolveChannel_JStr [of L s]
      addEvent_cong [OF eq] list_cong [OF eq] balances_cong [OF eq] settlements_cong [OF eq]
      summary_cong [OF eq] clearChannel_cong [OF eq] exportRoom_cong [OF eq] importRoom_cong [OF eq]
    by blast
qed

theorem room_key_is_trimmed_identifier_witness:
  "trim '' Trip '' = trim ''Trip'' \<and>
   resolveChannel tripLedger (JStr '' Trip '') = Inr ''Trip'' \<and>
   list tripLedger (JStr '' Trip '') = list tripLedger (JStr ''Trip'')"
proof -
  have h: "trim '' Trip '' = trim ''Trip''" by code_simp
  have t: "trim '' Trip '' = ''Trip''" by code_simp
  have "resolveChannel tripLedger (JStr '' Trip '') =
          Inr (if trim '' Trip '' \<noteq> [] then trim '' Trip '' else defaultChannel tripLedger)"
    and "list tripLedger (JStr '' Trip '') = list tripLedger (JStr ''Trip'')"
    using room_key_is_trimmed_identifier [OF h] by blast+
  then have "resolveChannel tripLedger (JStr '' Trip '') = Inr ''Trip''"
    and "list tripLedger (JStr '' Trip '') = list tripLedger (JStr ''Trip'')"
    by (simp_all add: t)
  with h show ?thesis by blast
qed

text \<open>
  Lower-casing is not part of the key: in the ledger that holds one event in the room
  \<open>trip\<close>, the identifiers \<open>trip\<close> and \<open>Trip\<close>, which differ only in letter case, resolve
  to two keys, and listing \<open>Trip\<close> does not return the event that listing \<open>trip\<close> returns.
\<close>

theorem room_keys_keep_letter_case:
  "toLowerCase ''Trip'' = toLowerCase ''trip'' \<and>
   resolveChannel tripLedger (JStr ''Trip'') = Inr ''Trip'' \<and>
   resolveChannel tripLedger (JStr ''trip'') = Inr ''trip'' \<and>
   list tripLedger (JStr ''trip'') = Inr [dinner] \<and>
   list tripLedger (JStr ''Trip'') = Inr []"
proof -
  have a: "resolveChannel M (JStr ''Trip'') = Inr ''Trip''" for M by code_simp
  have b: "resolveChannel M (JStr ''trip'') = Inr ''trip''" for M by code_simp
  have c: "toLowerCase ''Trip'' = toLowerCase ''trip''" by code_simp
  have "list tripLedger (JStr ''trip'') = Inr [dinner]"
    by (simp add: resolveChannel_list [OF b] tripLedger_def sortByTs_def)
  moreover have "list tripLedger (JStr ''Trip'') = Inr []"
    by (simp add: resolveChannel_list [OF a] tripLedger_def)
  ultimately show ?thesis using a [of tripLedger] b [of tripLedger] c by blast
qed



section \<open>Settlements\<close>

lemma settleLoop_Nil [simp]: "settleLoop [] cs = []" "settleLoop ds [] = []"
  by (cases ds; simp add: settleLoop.simps)+

lemma settleLoop_step:
  "settleLoop (d # ds) (c # cs) =
     (if 0 < min (cents d) (cents c)
      then [\<lparr> from_member = member d, to_member = member c, amount = min (cents d) (cents c) \<rparr>]
      else [])
     @ settleLoop
         (if dsub (cents d) (min (cents d) (cents c)) = 0 then ds
          else d\<lparr>cents := dsub (cents d) (min (cents d) (cents c))\<rparr> # ds)
         (if dsub (cents c) (min (cents d) (cents c)) = 0 then cs
          else c\<lparr>cents := dsub (cents c) (min (cents d) (cents c))\<rparr> # cs)"
  by (subst settleLoop.simps) (simp add: Let_def)

lemma settleLoop_induct [case_names Left Right Step]:
  fixes P :: "balance list \<Rightarrow> balance list \<Rightarrow> bool"
  assumes "\<And>cs. P [] cs"
    and "\<And>d ds. P (d # ds) []"
    and "\<And>d ds c cs.
           P (if dsub (cents d) (min (cents d) (cents c)) = 0 then ds
              else d\<lparr>cents := dsub (cents d) (min (cents d) (cents c))\<rparr> # ds)
             (if dsub (cents c) (min (cents d) (cents c)) = 0 then cs
              else c\<lparr>cents := dsub (cents c) (min (cents d) (cents c))\<rparr> # cs)
           \<Longrightarrow> P (d # ds) (c # cs)"
  shows "P ds cs"
proof (induction ds cs rule: settleLoop.induct)
  case (3 d ds c cs)
  show ?case
    by (rule assms(3)) (use "3.IH" [OF refl refl refl refl] in simp)
qed (simp_all add: assms)

lemma settleLoop_positive: "\<forall>row\<in>set (settleLoop ds cs). 0 < amount row"
proof (induction ds cs rule: settleLoop_induct)
  case (Step d ds c cs)
  let ?amt = "min (cents d) (cents c)"
  let ?ds' = "if dsub (cents d) ?amt = 0 then ds else d\<lparr>cents := dsub (cents d) ?amt\<rparr> # ds"
  let ?cs' = "if dsub (cents c) ?amt = 0 then cs else c\<lparr>cents := dsub (cents c) ?amt\<rparr> # cs"
  let ?row = "\<lparr> from_member = member d, to_member = member c, amount = ?amt \<rparr>"
  show ?case
  proof
    fix row assume "row \<in> set (settleLoop (d # ds) (c # cs))"
    then have "row \<in> set (if 0 < ?amt then [?row] else []) \<or> row \<in> set (settleLoop ?ds' ?cs')"
      unfolding settleLoop_step [of d ds c cs] by (simp only: set_append Un_iff)
    then show "0 < amount row"
    proof (elim disjE)
      assume "row \<in> set (if 0 < ?amt then [?row] else [])"
      then show ?thesis by (cases "0 < ?amt") simp_all
    next
      assume "row \<in> set (settleLoop ?ds' ?cs')"
      with Step.IH show ?thesis by blast
    qed
  qed
qed simp_all

lemma settleLoop_members:
  "\<forall>row\<in>set (settleLoop ds cs).
     from_member row \<in> member ` set ds \<and> to_member row \<in> member ` set cs"
proof (induction ds cs rule: settleLoop_induct)
  case (Step d ds c cs)
  let ?amt = "min (cents d) (cents c)"
  let ?ds' = "if dsub (cents d) ?amt = 0 then ds else d\<lparr>cents := dsub (cents d) ?amt\<rparr> # ds"
  let ?cs' = "if dsub (cents c) ?amt = 0 then cs else c\<lparr>cents := dsub (cents c) ?amt\<rparr> # cs"
  have sub: "member ` set ?ds' \<subseteq> member ` set (d # ds)" "member ` set ?cs' \<subseteq> member ` set (c # cs)"
    by auto
  let ?row = "\<lparr> from_member = member d, to_member = member c, amount = ?amt \<rparr>"
  show ?case
  proof
    fix row assume "row \<in> set (settleLoop (d # ds) (c # cs))"
    then have "row \<in> set (if 0 < ?amt then [?row] else []) \<or> row \<in> set (settleLoop ?ds' ?cs')"
      unfolding settleLoop_step [of d ds c cs] by (simp only: set_append Un_iff)
    then show "from_member row \<in> member ` set (d # ds) \<and> to_member row \<in> member ` set (c # cs)"
    proof (elim disjE)
      assume "row \<in> set (if 0 < ?amt then [?row] else [])"
      then have "row = ?row" by (cases "0 < ?amt") simp_all
      then show ?thesis by simp
    next
      assume "row \<in> set (settleLoop ?ds' ?cs')"
      with Step.IH have "from_member row \<in> member ` set ?ds'" "to_member row \<in> member ` set ?cs'"
        by blast+
      with sub show ?thesis by blast
    qed
  qed
qed simp_all

lemma settleLoop_length:
  "ds \<noteq> [] \<Longrightarrow> cs \<noteq> [] \<Longrightarrow> length (settleLoop ds cs) + 1 \<le> length ds + length cs"
proof (induction ds cs rule: settleLoop_induct)
  case (Step d ds c cs)
  let ?amt = "min (cents d) (cents c)"
  let ?ds' = "if dsub (cents d) ?amt = 0 then ds else d\<lparr>cents := dsub (cents d) ?amt\<rparr> # ds"
  let ?cs' = "if dsub (cents c) ?amt = 0 then cs else c\<lparr>cents := dsub (cents c) ?amt\<rparr> # cs"
  have step: "length (settleLoop (d # ds) (c # cs)) \<le> 1 + length (settleLoop ?ds' ?cs')"
    unfolding settleLoop_step [of d ds c cs] by simp
  have shrink: "length ?ds' + length ?cs' \<le> length ds + length cs + 1"
    by (auto simp: min_def)
  show ?case
  proof (cases "?ds' = [] \<or> ?cs' = []")
    case True
    then have "settleLoop ?ds' ?cs' = []" by auto
    with step show ?thesis by simp
  next
    case False
    with Step.IH have "length (settleLoop ?ds' ?cs') + 1 \<le> length ?ds' + length ?cs'"
      by blast
    with step shrink show ?thesis by simp
  qed
qed simp_all

lemma members_creditorsOf: "member ` set (creditorsOf bs) = creditorNames bs"
  by (simp add: creditorsOf_def creditorNames_def)

lemma members_debtorsOf: "member ` set (debtorsOf bs) = debtorNames bs"
  by (simp add: debtorsOf_def debtorNames_def image_image)

lemma length_creditors_debtors:
  "length (debtorsOf bs) + length (creditorsOf bs) \<le> length bs"
  by (induction bs) (auto simp: debtorsOf_def creditorsOf_def)

lemma all_zero_no_parties:
  "\<forall>b\<in>set bs. cents b = 0 \<Longrightarrow> debtorsOf bs = [] \<and> creditorsOf bs = []"
  by (induction bs) (auto simp: debtorsOf_def creditorsOf_def)

lemma settleLoop_bound:
  "bs \<noteq> [] \<Longrightarrow> int (length (settleLoop (debtorsOf bs) (creditorsOf bs))) \<le> int (length bs) - 1"
proof (cases "debtorsOf bs = [] \<or> creditorsOf bs = []")
  case True
  moreover assume "bs \<noteq> []"
  then have "0 < length bs" by simp
  ultimately show ?thesis by auto
next
  case False
  then have "length (settleLoop (debtorsOf bs) (creditorsOf bs)) + 1
               \<le> length (debtorsOf bs) + length (creditorsOf bs)"
    by (intro settleLoop_length) simp_all
  with length_creditors_debtors [of bs] show ?thesis by simp
qed

lemma settlements_returns:
  "balances collate L channel = Inr bs \<Longrightarrow>
   settlements collate L channel = Inr (settleLoop (debtorsOf bs) (creditorsOf bs))"
  by (simp add: settlements_def)

lemma paidBy_Cons:
  "paidBy (row # rows) x = (if from_member row = x then amount row else 0) + paidBy rows x"
  by (simp add: paidBy_def)

lemma receivedBy_Cons:
  "receivedBy (row # rows) x = (if to_member row = x then amount row else 0) + receivedBy rows x"
  by (simp add: receivedBy_def)

lemma paidBy_total:
  assumes "finite S" and "from_member ` set rows \<subseteq> S"
  shows "(\<Sum>x\<in>S. paidBy rows x) = sum_list (map amount rows)"
  using assms(2)
proof (induction rows)
  case Nil
  then show ?case by (simp add: paidBy_def)
next
  case (Cons row rows)
  then have "from_member row \<in> S" by simp
  then have "(\<Sum>x\<in>S. if from_member row = x then amount row else 0) = amount row"
    using assms(1) by (simp add: sum.delta')
  with Cons show ?case by (simp add: paidBy_Cons sum.distrib)
qed

lemma receivedBy_total:
  assumes "finite S" and "to_member ` set rows \<subseteq> S"
  shows "(\<Sum>x\<in>S. receivedBy rows x) = sum_list (map amount rows)"
  using assms(2)
proof (induction rows)
  case Nil
  then show ?case by (simp add: receivedBy_def)
next
  case (Cons row rows)
  then have "to_member row \<in> S" by simp
  then have "(\<Sum>x\<in>S. if to_member row = x then amount row else 0) = amount row"
    using assms(1) by (simp add: sum.delta')
  with Cons show ?case by (simp add: receivedBy_Cons sum.distrib)
qed

text \<open>
  C7, as amended. For every room, every row that \<open>settlements\<close> returns has a positive
  amount and goes from a debtor (a member with a negative balance) to a creditor (a
  member with a positive balance); what the debtors pay according to the rows is what
  the creditors receive, the sum of all the amounts; the number of rows is at most the
  number of participants minus one when the room has a participant, and there is no row
  when it has none; balances that are all zero give no row.
\<close>

theorem settlements_properties:
  assumes "balances collate L channel = Inr bs"
  shows "\<exists>rows. settlements collate L channel = Inr rows \<and>
           (\<forall>row\<in>set rows. 0 < amount row) \<and>
           (\<forall>row\<in>set rows.
              from_member row \<in> debtorNames bs \<and> to_member row \<in> creditorNames bs) \<and>
           (\<Sum>x\<in>debtorNames bs. paidBy rows x) = (\<Sum>x\<in>creditorNames bs. receivedBy rows x) \<and>
           (\<Sum>x\<in>debtorNames bs. paidBy rows x) = sum_list (map amount rows) \<and>
           (bs \<noteq> [] \<longrightarrow> int (length rows) \<le> int (length bs) - 1) \<and>
           (bs = [] \<longrightarrow> rows = []) \<and>
           ((\<forall>b\<in>set bs. cents b = 0) \<longrightarrow> rows = [])"
proof -
  define rows where "rows = settleLoop (debtorsOf bs) (creditorsOf bs)"
  have ret: "settlements collate L channel = Inr rows"
    using settlements_returns [OF assms] by (simp add: rows_def)
  have pos: "\<forall>row\<in>set rows. 0 < amount row"
    unfolding rows_def by (rule settleLoop_positive)
  have parties: "\<forall>row\<in>set rows.
      from_member row \<in> debtorNames bs \<and> to_member row \<in> creditorNames bs"
    using settleLoop_members [of "debtorsOf bs" "creditorsOf bs"]
    unfolding members_debtorsOf members_creditorsOf rows_def .
  have fin: "finite (debtorNames bs)" "finite (creditorNames bs)"
    by (simp_all add: debtorNames_def creditorNames_def)
  have paid: "(\<Sum>x\<in>debtorNames bs. paidBy rows x) = sum_list (map amount rows)"
    using parties by (intro paidBy_total [OF fin(1)]) auto
  have received: "(\<Sum>x\<in>creditorNames bs. receivedBy rows x) = sum_list (map amount rows)"
    using parties by (intro receivedBy_total [OF fin(2)]) auto
  have bound: "bs \<noteq> [] \<longrightarrow> int (length rows) \<le> int (length bs) - 1"
    unfolding rows_def using settleLoop_bound [of bs] by blast
  have none: "bs = [] \<longrightarrow> rows = []"
    by (simp add: rows_def debtorsOf_def)
  have settled: "(\<forall>b\<in>set bs. cents b = 0) \<longrightarrow> rows = []"
    using all_zero_no_parties [of bs] by (auto simp: rows_def)
  from ret pos parties paid received bound none settled show ?thesis
    by (intro exI [of _ rows]) simp
qed

lemma steps_dinner:
  "foldl applyToBalances [] [dinner] = [(''alice'', 66), (''bob'', - 33), (''carol'', - 33)]"
  by (simp add: applyToBalances_def mapGet_def dinner_def dadd_def dsub_def roundDouble_exact)

lemma balances_tripLedger:
  "balances length tripLedger (JStr ''trip'') =
     Inr [\<lparr> member = ''bob'', cents = - 33 \<rparr>, \<lparr> member = ''alice'', cents = 66 \<rparr>,
          \<lparr> member = ''carol'', cents = - 33 \<rparr>]"
  unfolding balances_storedEvents [OF resolveChannel_trip] stored_tripLedger
  by (simp only: sortByTs_def sort_key_simps insort_key.simps steps_dinner) simp

theorem settlements_properties_witness:
  "balances length tripLedger (JStr ''trip'') =
     Inr [\<lparr> member = ''bob'', cents = - 33 \<rparr>, \<lparr> member = ''alice'', cents = 66 \<rparr>,
          \<lparr> member = ''carol'', cents = - 33 \<rparr>] \<and>
   (\<exists>rows. settlements length tripLedger (JStr ''trip'') = Inr rows \<and>
      (\<Sum>x\<in>{''bob'', ''carol''}. paidBy rows x) = receivedBy rows ''alice'' \<and>
      int (length rows) \<le> 2)"
proof -
  let ?bs = "[\<lparr> member = ''bob'', cents = - 33 \<rparr>, \<lparr> member = ''alice'', cents = 66 \<rparr>,
              \<lparr> member = ''carol'', cents = - 33 \<rparr>]"
  have d: "debtorNames ?bs = {''bob'', ''carol''}" and c: "creditorNames ?bs = {''alice''}"
    by (simp_all add: debtorNames_def creditorNames_def)
  from settlements_properties [OF balances_tripLedger]
  obtain rows where "settlements length tripLedger (JStr ''trip'') = Inr rows"
    and "(\<Sum>x\<in>debtorNames ?bs. paidBy rows x) = (\<Sum>x\<in>creditorNames ?bs. receivedBy rows x)"
    and "int (length rows) \<le> int (length ?bs) - 1"
    by auto
  then have "settlements length tripLedger (JStr ''trip'') = Inr rows \<and>
      (\<Sum>x\<in>{''bob'', ''carol''}. paidBy rows x) = receivedBy rows ''alice'' \<and>
      int (length rows) \<le> 2"
    unfolding d c by simp
  with balances_tripLedger show ?thesis by blast
qed

text \<open>
  The bound as the specification states it fails for a room without events: it has no
  participant and no settlement row, and zero is more than zero minus one.
\<close>

theorem settlements_bound_counterexample:
  "balances length (newLedger JUndefined) (JStr ''trip'') = Inr [] \<and>
   settlements length (newLedger JUndefined) (JStr ''trip'') = Inr [] \<and>
   \<not> int (length ([] :: settlement list)) \<le> int (length ([] :: balance list)) - 1"
proof -
  have b: "balances length (newLedger JUndefined) (JStr ''trip'') = Inr []"
    by (simp add: balances_storedEvents [OF resolveChannel_trip] storedEvents_def newLedger_def
        sortByTs_def)
  then have "settlements length (newLedger JUndefined) (JStr ''trip'') = Inr []"
    by (simp add: settlements_def debtorsOf_def)
  with b show ?thesis by simp
qed

section \<open>Order of arrival\<close>






section \<open>The balance Map does not depend on the order of the events\<close>





lemma mapGet_Nil [simp]: "mapGet [] k = 0"
  by (simp add: mapGet_def)





















section \<open>Decimal digits\<close>

lemma digitChar_code: "d < 10 \<Longrightarrow> of_char (digitChar d) = 48 + d"
proof -
  assume "d < 10"
  then consider "d = 0" | "d = 1" | "d = 2" | "d = 3" | "d = 4" | "d = 5" | "d = 6" | "d = 7"
    | "d = 8" | "d = 9"
    by atomize_elim presburger
  then show ?thesis by cases (simp_all add: digitChar_def)
qed

lemma digitChar_isDigit: "d < 10 \<Longrightarrow> isDigit (digitChar d)"
  using digitChar_code [of d] by (simp add: isDigit_def)

lemma isDigit_not_space: "isDigit c \<Longrightarrow> \<not> isWhiteSpace c"
  by (auto simp: isDigit_def isWhiteSpace_def)

lemma isDigit_not_sign: "isDigit c \<Longrightarrow> c \<noteq> CHR ''-'' \<and> c \<noteq> CHR ''+''"
  by (auto simp: isDigit_def)

lemma digits_nonempty: "digits n \<noteq> []"
  by (subst digits.simps) simp

lemma digits_all_isDigit: "\<forall>c\<in>set (digits n). isDigit c"
proof (induction n rule: digits.induct)
  case (1 n)
  show ?case
  proof (cases "n < 10")
    case True
    then show ?thesis by (subst digits.simps) (simp add: digitChar_isDigit)
  next
    case False
    with 1 show ?thesis by (subst digits.simps) (simp add: digitChar_isDigit)
  qed
qed

lemma digitsValue_snoc: "digitsValue (ds @ [c]) = 10 * digitsValue ds + (of_char c - 48)"
  by (simp add: digitsValue_def)

lemma digitsValue_digits: "digitsValue (digits n) = n"
proof (induction n rule: digits.induct)
  case (1 n)
  show ?case
  proof (cases "n < 10")
    case True
    then show ?thesis
      by (subst digits.simps) (simp add: digitsValue_def digitChar_code)
  next
    case False
    with 1 show ?thesis
      by (subst digits.simps) (simp add: digitsValue_snoc digitChar_code)
  qed
qed

lemma parseInt10_digits: "parseInt10 (digits n) = Some (int n)"
proof -
  have ne: "digits n \<noteq> []" by (rule digits_nonempty)
  then have hd: "isDigit (hd (digits n))" using digits_all_isDigit [of n] by simp
  have dw: "dropWhile isWhiteSpace (digits n) = digits n"
    using hd ne isDigit_not_space by (intro dropWhile_self) blast
  have tw: "takeWhile isDigit (digits n) = digits n"
    using digits_all_isDigit [of n] by (simp add: takeWhile_eq_all_conv)
  have sg: "hd (digits n) \<noteq> CHR ''-''" "hd (digits n) \<noteq> CHR ''+''"
    using isDigit_not_sign [OF hd] by simp_all
  show ?thesis
    by (simp add: parseInt10_def Let_def dw tw sg ne digitsValue_digits)
qed

lemma digits_times_10: "0 < s \<Longrightarrow> digits (s * 10) = digits s @ ''0''"
  by (subst digits.simps) (simp add: digitChar_def)

lemma digits_times_power: "0 < s \<Longrightarrow> digits (s * 10 ^ z) = digits s @ replicate z CHR ''0''"
proof (induction z)
  case 0
  then show ?case by simp
next
  case (Suc z)
  have "digits (s * 10 ^ Suc z) = digits ((s * 10 ^ z) * 10)" by (simp add: mult.commute mult.left_commute)
  also have "\<dots> = digits (s * 10 ^ z) @ ''0''" using Suc.prems by (intro digits_times_10) simp
  also have "\<dots> = digits s @ replicate (Suc z) CHR ''0''"
    using Suc by (simp add: replicate_append_same)
  finally show ?case .
qed

lemma length_digits: "n < 10 ^ j \<Longrightarrow> 0 < j \<Longrightarrow> length (digits n) \<le> j"
proof (induction n arbitrary: j rule: digits.induct)
  case (1 n)
  show ?case
  proof (cases "n < 10")
    case True
    with 1 show ?thesis by (subst digits.simps) simp
  next
    case False
    from "1.prems" obtain i where j: "j = Suc i" by (cases j) auto
    with False "1.prems" have i: "0 < i" by (cases i) auto
    have "n div 10 < 10 ^ i" using "1.prems" j by (simp add: less_mult_imp_div_less mult.commute)
    from "1.IH" [OF False this i] False show ?thesis
      by (subst digits.simps) (simp add: j)
  qed
qed

lemma stripZeros_spec:
  "0 < s \<Longrightarrow> stripZeros s e = (s', e') \<Longrightarrow> e \<le> e' \<and> 0 < s' \<and> s = s' * 10 ^ nat (e' - e)"
proof (induction s e rule: stripZeros.induct)
  case (1 s e)
  show ?case
  proof (cases "s mod 10 = 0")
    case True
    with "1.prems" have "10 \<le> s" by presburger
    then have pos: "0 < s div 10" by (simp add: div_greater_zero_iff)
    from "1.prems" True have "stripZeros (s div 10) (e + 1) = (s', e')"
      by (subst (asm) stripZeros.simps) simp
    from "1.IH" [OF _ pos this] "1.prems" True
    have ih: "e + 1 \<le> e'" "0 < s'" "s div 10 = s' * 10 ^ nat (e' - (e + 1))" by auto
    have "nat (e' - e) = Suc (nat (e' - (e + 1)))" using ih(1) by simp
    then have "s' * 10 ^ nat (e' - e) = (s div 10) * 10" using ih(3) by simp
    also have "\<dots> = s" using True by auto
    finally show ?thesis using ih by simp
  next
    case False
    with "1.prems" show ?thesis by (subst (asm) stripZeros.simps) auto
  qed
qed

lemma numberToString_safe:
  assumes "0 < a" and "a \<le> maxSafeInteger"
  shows "numberToString a 0 = digits (nat a)"
proof -
  obtain s e' where st: "stripZeros (nat a) 0 = (s, e')" by (cases "stripZeros (nat a) 0")
  have abs: "\<bar>a\<bar> = a" using assms(1) by simp
  have "0 < nat a" using assms(1) by simp
  from stripZeros_spec [OF this st] assms(1)
  have e: "0 \<le> e'" and s: "0 < s" and a: "nat a = s * 10 ^ nat e'" by auto
  have d: "digits (nat a) = digits s @ replicate (nat e') CHR ''0''"
    unfolding a using s by (rule digits_times_power)
  have "nat a < 10 ^ 16" using assms by (simp add: maxSafeInteger_def)
  then have "length (digits (nat a)) \<le> 16" by (rule length_digits) simp
  then have len: "length (digits s) + nat e' \<le> 16" by (simp add: d)
  have c: "e' + int (length (digits s)) \<le> 21" using e len by linarith
  have "numberToString a 0 = digits s @ replicate (nat e') CHR ''0''"
    using assms(1) by (simp add: numberToString_def abs st Let_def e c)
  then show ?thesis by (simp add: d)
qed

lemma parseInt10_amount:
  assumes "0 < a" and "a \<le> maxSafeInteger"
  shows "parseInt10 (numberToString a 0) = Some a"
  using assms by (simp add: numberToString_safe parseInt10_digits)

section \<open>Beyond the exact range\<close>

text \<open>
  The three events of the example are valid, and the two ledgers are what the merge
  engine builds from them in the two orders of arrival.
\<close>

lemma normalizeEvent_oneRaw: "normalizeEvent now oneRaw = Inr (Some oneEvent)"
  by code_simp
lemma normalizeEvent_twoRaw: "normalizeEvent now twoRaw = Inr (Some twoEvent)"
  by code_simp

lemma normalizeEvent_bigRaw: "normalizeEvent now bigRaw = Inr (Some bigEvent)"
proof -
  have a: "parseInt10 (numberToString 9007199254740991 0) = Some 9007199254740991"
    by (rule parseInt10_amount) (simp_all add: maxSafeInteger_def)
  have "normalizeEvent now bigRaw =
          Inr (Some \<lparr> txId = ''x1'', payer = ''al'',
                 amountCents = the (parseInt10 (numberToString 9007199254740991 0)),
                 split = [''bob''], note_text = [],
                 ts = (case getProp bigRaw ''ts'' of JNum m e \<Rightarrow> (m, e) | _ \<Rightarrow> (now, 0)),
                 by_id = (if getProp bigRaw ''by'' = JUndefined then JNull else getProp bigRaw ''by'') \<rparr>)"
  proof (rule normalizeEvent_SomeI)
    show "truthy bigRaw" "typeofObject bigRaw"
      by (simp_all add: bigRaw_def)
    show "normalizeText (getProp bigRaw ''txId'') = Inr ''x1''" by code_simp
    show "normalizeMember (getProp bigRaw ''payer'') = Inr ''al''" by code_simp
    show "ToString (getProp bigRaw ''amountCents'') = Inr (numberToString 9007199254740991 0)"
      by (simp add: bigRaw_def)
    show "parseMembers (getProp bigRaw ''split'') = Inr [''bob'']" by code_simp
    show "normalizeText (getProp bigRaw ''note'') = Inr []" by code_simp
    show "isSafeInteger (parseInt10 (numberToString 9007199254740991 0))"
      "0 < the (parseInt10 (numberToString 9007199254740991 0))"
      by (simp_all add: a isSafeInteger_def maxSafeInteger_def)
  qed simp_all
  then show ?thesis
    by (simp add: a bigEvent_def bigRaw_def)
qed

lemma addEvent_first:
  assumes "normalizeEvent now raw = Inr (Some n)"
  shows "addEvent now (newLedger JUndefined) (JStr ''trip'') raw =
           Inr (AddOk False n,
                \<lparr> defaultChannel = ''0000intercom'',
                  rooms = [''trip'' \<mapsto> \<lparr> events = [n], txSeen = {txId n} \<rparr>] \<rparr>)"
  using assms
  by (simp add: addEvent_def getRoom_def resolveChannel_trip newLedger_def emptyRoom_def)

lemma addEvent_next:
  assumes "normalizeEvent now raw = Inr (Some n)" and "txId n \<notin> seen"
  shows "addEvent now \<lparr> defaultChannel = ''0000intercom'',
                        rooms = [''trip'' \<mapsto> \<lparr> events = es, txSeen = seen \<rparr>] \<rparr>
           (JStr ''trip'') raw =
           Inr (AddOk False n,
                \<lparr> defaultChannel = ''0000intercom'',
                  rooms = [''trip'' \<mapsto> \<lparr> events = es @ [n], txSeen = insert (txId n) seen \<rparr>] \<rparr>)"
  using assms
  by (simp add: addEvent_def getRoom_def resolveChannel_trip)


lemma twoOneLedger_is_reached:
  "addEvents (newLedger JUndefined) (JStr ''trip'') [(0, bigRaw), (0, twoRaw), (0, oneRaw)] =
     Inr twoOneLedger"
proof -
  have ids: "txId bigEvent = ''x1''" "txId oneEvent = ''x2''" "txId twoEvent = ''x3''"
    by (simp_all add: bigEvent_def oneEvent_def twoEvent_def)
  show ?thesis
    by (simp add: addEvent_first [OF normalizeEvent_bigRaw]
        addEvent_next [OF normalizeEvent_oneRaw] addEvent_next [OF normalizeEvent_twoRaw]
        ids twoOneLedger_def insert_commute)
qed


lemma sortByTs_bigTwoOne: "sortByTs [bigEvent, twoEvent, oneEvent] = [bigEvent, twoEvent, oneEvent]"
  by (simp add: sortByTs_def bigEvent_def oneEvent_def twoEvent_def tsValue_def)

lemma bitLength_above:
  "bitLength 9007199254740993 = 54" "bitLength 9007199254740994 = 54"
  using bitLength_eq [of 53 9007199254740993] bitLength_eq [of 53 9007199254740994] by simp_all

lemma roundDouble_above:
  "roundDouble 9007199254740993 = 9007199254740992"
  "roundDouble 9007199254740994 = 9007199254740994"
  by (simp_all add: roundDouble_def roundNat_def bitLength_above)


lemma steps_bigTwoOne:
  "foldl applyToBalances [] [bigEvent, twoEvent, oneEvent] =
     [(''bob'', - 9007199254740991), (''al'', 9007199254740992), (''david'', - 2), (''cleo'', - 1)]"
  by (simp add: applyToBalances_def mapGet_def bigEvent_def oneEvent_def twoEvent_def
      dadd_def dsub_def roundDouble_exact roundDouble_above)

lemma stored_twoOneLedger: "storedEvents twoOneLedger ''trip'' = [bigEvent, twoEvent, oneEvent]"
  by (simp add: storedEvents_def twoOneLedger_def)


lemma balances_twoOneLedger:
  "balances length twoOneLedger (JStr ''trip'') =
     Inr [\<lparr> member = ''al'', cents = 9007199254740992 \<rparr>,
          \<lparr> member = ''bob'', cents = - 9007199254740991 \<rparr>,
          \<lparr> member = ''cleo'', cents = - 1 \<rparr>,
          \<lparr> member = ''david'', cents = - 2 \<rparr>]"
  unfolding balances_storedEvents [OF resolveChannel_trip] stored_twoOneLedger
    sortByTs_bigTwoOne steps_bigTwoOne
  by simp


text \<open>
  Conservation fails as the specification states it. The room \<open>trip\<close> of the ledger that received
  Al's payments of 9007199254740991, 2 and 1 cents holds three valid events; the second
  sum, \<open>9007199254740991 + 2\<close>, is not a double and is rounded to \<open>2 ^ 53\<close>, and so is
  the third; the balances that \<open>balances\<close> returns sum to \<open>- 2\<close> cents.
\<close>

theorem balances_lose_cents_beyond_limit:
  "addEvents (newLedger JUndefined) (JStr ''trip'') [(0, bigRaw), (0, twoRaw), (0, oneRaw)] =
     Inr twoOneLedger \<and>
   balances length twoOneLedger (JStr ''trip'') =
     Inr [\<lparr> member = ''al'', cents = 9007199254740992 \<rparr>,
          \<lparr> member = ''bob'', cents = - 9007199254740991 \<rparr>,
          \<lparr> member = ''cleo'', cents = - 1 \<rparr>,
          \<lparr> member = ''david'', cents = - 2 \<rparr>] \<and>
   sum_list (map cents [\<lparr> member = ''al'', cents = 9007199254740992 \<rparr>,
          \<lparr> member = ''bob'', cents = - 9007199254740991 \<rparr>,
          \<lparr> member = ''cleo'', cents = - 1 \<rparr>,
          \<lparr> member = ''david'', cents = - 2 \<rparr>]) = - 2"
  using twoOneLedger_is_reached balances_twoOneLedger by simp


text \<open>
  Within the exact range the order of the balance list still follows the order of
  arrival where the collation does not decide: the sort is stable, and the Map lists
  its members in the order in which the events have named them. For a collation that
  compares Cleo and David as equal, the two small events, which have the same
  timestamp, give two different balance lists in their two orders of arrival.
\<close>

lemma steps_oneTwo:
  "foldl applyToBalances [] [oneEvent, twoEvent] = [(''cleo'', - 1), (''al'', 3), (''david'', - 2)]"
  by (simp add: applyToBalances_def mapGet_def oneEvent_def twoEvent_def
      dadd_def dsub_def roundDouble_exact)

lemma steps_twoOne:
  "foldl applyToBalances [] [twoEvent, oneEvent] = [(''david'', - 2), (''al'', 3), (''cleo'', - 1)]"
  by (simp add: applyToBalances_def mapGet_def oneEvent_def twoEvent_def
      dadd_def dsub_def roundDouble_exact)

lemma balance_order_follows_arrival_on_ties:
  fixes collate :: "string \<Rightarrow> 'k::linorder"
  assumes "collate ''cleo'' = collate ''david''"
  shows "sort_key (\<lambda>b. collate (member b))
           (map (\<lambda>(k, v). \<lparr> member = k, cents = v \<rparr>) (foldl applyToBalances [] [oneEvent, twoEvent])) \<noteq>
         sort_key (\<lambda>b. collate (member b))
           (map (\<lambda>(k, v). \<lparr> member = k, cents = v \<rparr>) (foldl applyToBalances [] [twoEvent, oneEvent]))"
proof
  let ?f = "\<lambda>b. collate (member b)"
  let ?A = "[\<lparr> member = ''cleo'', cents = - 1 \<rparr>, \<lparr> member = ''al'', cents = 3 \<rparr>,
             \<lparr> member = ''david'', cents = - 2 \<rparr>]"
  let ?B = "[\<lparr> member = ''david'', cents = - 2 \<rparr>, \<lparr> member = ''al'', cents = 3 \<rparr>,
             \<lparr> member = ''cleo'', cents = - 1 \<rparr>]"
  assume "sort_key ?f (map (\<lambda>(k, v). \<lparr> member = k, cents = v \<rparr>) (foldl applyToBalances [] [oneEvent, twoEvent])) =
          sort_key ?f (map (\<lambda>(k, v). \<lparr> member = k, cents = v \<rparr>) (foldl applyToBalances [] [twoEvent, oneEvent]))"
  then have "sort_key ?f ?A = sort_key ?f ?B"
    unfolding steps_oneTwo steps_twoOne by simp
  then have "filter (\<lambda>b. ?f b = collate ''cleo'') (sort_key ?f ?A) =
             filter (\<lambda>b. ?f b = collate ''cleo'') (sort_key ?f ?B)"
    by simp
  then have "filter (\<lambda>b. ?f b = collate ''cleo'') ?A = filter (\<lambda>b. ?f b = collate ''cleo'') ?B"
    unfolding sort_key_stable .
  then have "hd (filter (\<lambda>b. ?f b = collate ''cleo'') ?A) = hd (filter (\<lambda>b. ?f b = collate ''cleo'') ?B)"
    by simp
  with assms show False by simp
qed

section \<open>Normal forms of members\<close>

lemma lowerChar_idem: "lowerChar (lowerChar c) = lowerChar c"
proof -
  define n where "n = (of_char c :: nat)"
  show ?thesis
  proof (cases "(65 \<le> n \<and> n \<le> 90) \<or> (192 \<le> n \<and> n \<le> 222 \<and> n \<noteq> 215)")
    case True
    then have l: "lowerChar c = char_of (n + 32)" by (simp add: lowerChar_def n_def Let_def)
    have "(of_char (char_of (n + 32)) :: nat) = n + 32" using True by auto
    with True show ?thesis unfolding l by (auto simp: lowerChar_def Let_def)
  next
    case False
    then have "lowerChar c = c" by (auto simp: lowerChar_def n_def Let_def)
    then show ?thesis by simp
  qed
qed

lemma lowerChar_space: "isWhiteSpace (lowerChar c) = isWhiteSpace c"
proof -
  define n where "n = (of_char c :: nat)"
  show ?thesis
  proof (cases "(65 \<le> n \<and> n \<le> 90) \<or> (192 \<le> n \<and> n \<le> 222 \<and> n \<noteq> 215)")
    case True
    then have l: "lowerChar c = char_of (n + 32)" by (simp add: lowerChar_def n_def Let_def)
    have "(of_char (char_of (n + 32)) :: nat) = n + 32" using True by auto
    with True show ?thesis unfolding l by (auto simp: isWhiteSpace_def n_def)
  next
    case False
    then have "lowerChar c = c" by (auto simp: lowerChar_def n_def Let_def)
    then show ?thesis by simp
  qed
qed

lemma toLowerCase_idem [simp]: "toLowerCase (toLowerCase s) = toLowerCase s"
  by (simp add: toLowerCase_def lowerChar_idem)

lemma toLowerCase_Nil_iff [simp]: "toLowerCase s = [] \<longleftrightarrow> s = []"
  by (simp add: toLowerCase_def)

lemma trimmed_toLowerCase: "trimmed s \<Longrightarrow> trimmed (toLowerCase s)"
  by (cases "s = []") (auto simp: trimmed_def toLowerCase_def hd_map last_map lowerChar_space)

lemma normalizeMember_JStr [simp]: "normalizeMember (JStr s) = Inr (toLowerCase (trim s))"
  by (simp add: normalizeMember_def)

lemma normalizeText_trimmed: "normalizeText v = Inr s \<Longrightarrow> trimmed s"
  by (auto simp: normalizeText_def andThen_eq_Inr trimmed_trim)

lemma normalizeMember_wf: "normalizeMember v = Inr m \<Longrightarrow> m \<noteq> [] \<Longrightarrow> wfMember m"
  by (auto simp: normalizeMember_def andThen_eq_Inr wfMember_def
      dest!: normalizeText_trimmed intro: trimmed_toLowerCase)

lemma wfMember_fix: "wfMember m \<Longrightarrow> toLowerCase (trim m) = m"
  by (simp add: wfMember_def trim_trimmed)

lemma parseMembersLoop_wf:
  assumes "parseMembersLoop vs dedup acc = Inr sp"
    and "dedup = set acc" and "distinct acc" and "list_all wfMember acc"
  shows "distinct sp \<and> list_all wfMember sp"
  using assms
proof (induction vs arbitrary: dedup acc)
  case Nil
  then show ?case by simp
next
  case (Cons raw rest)
  from Cons.prems(1) obtain m where m: "normalizeMember raw = Inr m"
    and rest: "(if m = [] \<or> m \<in> dedup then parseMembersLoop rest dedup acc
                else parseMembersLoop rest (insert m dedup) (acc @ [m])) = Inr sp"
    by (auto simp: andThen_eq_Inr)
  show ?case
  proof (cases "m = [] \<or> m \<in> dedup")
    case True
    with rest Cons.IH [of dedup acc] Cons.prems show ?thesis by simp
  next
    case False
    with rest have r: "parseMembersLoop rest (insert m dedup) (acc @ [m]) = Inr sp" by simp
    have "wfMember m" using normalizeMember_wf [OF m] False by simp
    with Cons.IH [OF r] Cons.prems False show ?thesis by simp
  qed
qed

lemma parseMembers_wf: "parseMembers v = Inr sp \<Longrightarrow> distinct sp \<and> list_all wfMember sp"
  using parseMembersLoop_wf [of _ "{}" "[]" sp] by (simp add: parseMembers_def)

lemma parseMembersLoop_fix:
  assumes "list_all wfMember ms" and "distinct (acc @ ms)"
  shows "parseMembersLoop (map JStr ms) (set acc) acc = Inr (acc @ ms)"
  using assms
proof (induction ms arbitrary: acc)
  case Nil
  then show ?case by simp
next
  case (Cons m ms)
  then have m: "wfMember m" "m \<noteq> []" "m \<notin> set acc" by (auto simp: wfMember_def)
  have "parseMembersLoop (map JStr ms) (set (acc @ [m])) (acc @ [m]) = Inr ((acc @ [m]) @ ms)"
    using Cons.prems by (intro Cons.IH) simp_all
  with m show ?case by (simp add: wfMember_fix)
qed

lemma parseMembers_fix:
  "list_all wfMember ms \<Longrightarrow> distinct ms \<Longrightarrow> parseMembers (JArr (map JStr ms)) = Inr ms"
  using parseMembersLoop_fix [of ms "[]"] by (simp add: parseMembers_def)

section \<open>Stored events are fixed points of validation\<close>

lemma normalizeEvent_wf:
  assumes "normalizeEvent now ev = Inr (Some n)"
  shows "wfEvent n"
proof -
  from normalizeEvent_SomeD [OF assms] obtain tx p atext sp nt where
    h: "normalizeText (getProp ev ''txId'') = Inr tx"
       "normalizeMember (getProp ev ''payer'') = Inr p"
       "parseMembers (getProp ev ''split'') = Inr sp"
       "normalizeText (getProp ev ''note'') = Inr nt"
       "tx \<noteq> []" "p \<noteq> []" "isSafeInteger (parseInt10 atext)"
       "0 < the (parseInt10 atext)" "sp \<noteq> []"
    and n: "n = \<lparr> txId = tx, payer = p, amountCents = the (parseInt10 atext),
                 split = sp, note_text = nt,
                 ts = (case getProp ev ''ts'' of JNum m e \<Rightarrow> (m, e) | _ \<Rightarrow> (now, 0)),
                 by_id = (if getProp ev ''by'' = JUndefined then JNull else getProp ev ''by'') \<rparr>"
    by blast
  have "the (parseInt10 atext) \<le> maxSafeInteger"
    using h(7) by (auto simp: isSafeInteger_def split: option.splits)
  with h parseMembers_wf [OF h(3)] normalizeText_trimmed [OF h(1)] normalizeText_trimmed [OF h(4)]
    normalizeMember_wf [OF h(2)]
  show ?thesis by (simp add: wfEvent_def n)
qed

lemma getProp_eventValue:
  "getProp (eventValue e) ''txId'' = JStr (txId e)"
  "getProp (eventValue e) ''payer'' = JStr (payer e)"
  "getProp (eventValue e) ''amountCents'' = JNum (amountCents e) 0"
  "getProp (eventValue e) ''split'' = JArr (map JStr (split e))"
  "getProp (eventValue e) ''note'' = JStr (note_text e)"
  "getProp (eventValue e) ''ts'' = JNum (fst (ts e)) (snd (ts e))"
  "getProp (eventValue e) ''by'' = by_id e"
  by (simp_all add: eventValue_def)

lemma normalizeEvent_eventValue:
  assumes "wfEvent e"
  shows "normalizeEvent now (eventValue e) = Inr (Some e)"
proof -
  have a: "parseInt10 (numberToString (amountCents e) 0) = Some (amountCents e)"
    using assms by (intro parseInt10_amount) (simp_all add: wfEvent_def)
  have "normalizeEvent now (eventValue e) =
          Inr (Some \<lparr> txId = txId e, payer = payer e,
                 amountCents = the (parseInt10 (numberToString (amountCents e) 0)),
                 split = split e, note_text = note_text e,
                 ts = (case getProp (eventValue e) ''ts'' of JNum m x \<Rightarrow> (m, x) | _ \<Rightarrow> (now, 0)),
                 by_id = (if getProp (eventValue e) ''by'' = JUndefined then JNull
                          else getProp (eventValue e) ''by'') \<rparr>)"
  proof (rule normalizeEvent_SomeI)
    show "truthy (eventValue e)" "typeofObject (eventValue e)"
      by (simp_all add: eventValue_def)
    show "normalizeText (getProp (eventValue e) ''txId'') = Inr (txId e)"
      using assms by (simp add: getProp_eventValue wfEvent_def trim_trimmed)
    show "normalizeMember (getProp (eventValue e) ''payer'') = Inr (payer e)"
      using assms by (simp add: getProp_eventValue wfEvent_def wfMember_fix)
    show "ToString (getProp (eventValue e) ''amountCents'') = Inr (numberToString (amountCents e) 0)"
      by (simp add: getProp_eventValue)
    show "parseMembers (getProp (eventValue e) ''split'') = Inr (split e)"
      using assms by (simp add: getProp_eventValue wfEvent_def parseMembers_fix)
    show "normalizeText (getProp (eventValue e) ''note'') = Inr (note_text e)"
      using assms by (simp add: getProp_eventValue wfEvent_def trim_trimmed)
    show "txId e \<noteq> []" "payer e \<noteq> []" "split e \<noteq> []"
      using assms by (simp_all add: wfEvent_def wfMember_def)
    show "isSafeInteger (parseInt10 (numberToString (amountCents e) 0))"
      "0 < the (parseInt10 (numberToString (amountCents e) 0))"
      using assms by (simp_all add: a isSafeInteger_def wfEvent_def)
  qed
  also have "\<dots> = Inr (Some e)"
    using assms by (simp add: a getProp_eventValue wfEvent_def)
  finally show ?thesis .
qed

section \<open>Snapshots\<close>

lemma sortByTs_idem [simp]: "sortByTs (sortByTs evs) = sortByTs evs"
  by (simp add: sortByTs_def sort_key_id_if_sorted)

lemma length_sortByTs [simp]: "length (sortByTs evs) = length evs"
  by (simp add: sortByTs_def)

lemma txIds_sortByTs [simp]: "set (map txId (sortByTs evs)) = set (map txId evs)"
  by simp

lemma distinct_txIds_sortByTs [simp]:
  "distinct (map txId (sortByTs evs)) = distinct (map txId evs)"
proof -
  have "mset (map txId (sortByTs evs)) = mset (map txId evs)" by simp
  then show ?thesis by (rule mset_eq_imp_distinct_iff)
qed

lemma list_all_sortByTs [simp]: "list_all P (sortByTs evs) = list_all P evs"
  by (simp add: list_all_iff)

lemma room_overwrite [simp]:
  fixes r :: room
  shows "r\<lparr>txSeen := A, events := B\<rparr> = \<lparr> events = B, txSeen = A \<rparr>"
    and "r\<lparr>events := B, txSeen := A\<rparr> = \<lparr> events = B, txSeen = A \<rparr>"
  by (cases r, simp)+

lemma normalizeSnapshotLoop_fix:
  assumes "list_all wfEvent evs" and "distinct (map txId (acc @ evs))"
  shows "normalizeSnapshotLoop clock i (map eventValue evs) (set (map txId acc)) acc = Inr (acc @ evs)"
  using assms
proof (induction evs arbitrary: acc i)
  case Nil
  then show ?case by simp
next
  case (Cons e evs)
  then have e: "wfEvent e" "txId e \<notin> set (map txId acc)" by auto
  have "normalizeSnapshotLoop clock (i + 1) (map eventValue evs) (set (map txId (acc @ [e]))) (acc @ [e])
          = Inr ((acc @ [e]) @ evs)"
    using Cons.prems by (intro Cons.IH) simp_all
  with e show ?case by (simp add: normalizeEvent_eventValue)
qed

lemma importLoop_fresh:
  assumes "distinct (map txId evs)" and "set (map txId evs) \<inter> txSeen r = {}"
  shows "importLoop evs r added =
           (r\<lparr>txSeen := txSeen r \<union> set (map txId evs), events := events r @ evs\<rparr>,
            added + length evs)"
  using assms
proof (induction evs arbitrary: r added)
  case Nil
  then show ?case by simp
next
  case (Cons e evs)
  let ?r = "r\<lparr>txSeen := insert (txId e) (txSeen r), events := events r @ [e]\<rparr>"
  have "importLoop evs ?r (added + 1) =
          (?r\<lparr>txSeen := txSeen ?r \<union> set (map txId evs), events := events ?r @ evs\<rparr>,
           added + 1 + length evs)"
    using Cons.prems by (intro Cons.IH) auto
  with Cons.prems show ?case by simp
qed

lemma importLoop_seen:
  "set (map txId evs) \<subseteq> txSeen r \<Longrightarrow> importLoop evs r added = (r, added)"
  by (induction evs arbitrary: r added) simp_all

lemma resolveChannel_key:
  assumes "resolveChannel L channel = Inr key"
    and "trimmed (defaultChannel L)" and "defaultChannel L \<noteq> []"
  shows "trimmed key \<and> key \<noteq> []"
proof -
  from assms(1) obtain target where t: "normalizeText channel = Inr target"
    and k: "key = (if target \<noteq> [] then target else defaultChannel L)"
    by (auto simp: resolveChannel_def andThen_eq_Inr)
  from normalizeText_trimmed [OF t] assms(2,3) k show ?thesis by auto
qed

lemma resolveChannel_own_key:
  "trimmed key \<Longrightarrow> key \<noteq> [] \<Longrightarrow> resolveChannel L (JStr key) = Inr key"
  by (simp add: resolveChannel_JStr trim_trimmed)

lemma list_roomAt:
  "resolveChannel L channel = Inr key \<Longrightarrow> list L channel = Inr (sortByTs (events (roomAt L key)))"
  by (simp add: resolveChannel_list roomAt_def emptyRoom_def sortByTs_def split: option.splits)

lemma exportRoom_returns:
  assumes "resolveChannel L channel = Inr key" and "trimmed key" and "key \<noteq> []"
  shows "exportRoom L channel =
           Inr \<lparr> snap_channel = key, snap_version = 1,
                 snap_events = sortByTs (events (roomAt L key)) \<rparr>"
  using assms list_roomAt [OF resolveChannel_own_key [OF assms(2,3), of L]]
  by (simp add: exportRoom_def)

lemma getRoom_roomAt:
  "resolveChannel L channel = Inr key \<Longrightarrow>
   getRoom L channel = Inr (key, roomAt L key, L\<lparr>rooms := (rooms L)(key \<mapsto> roomAt L key)\<rparr>)"
  by (cases L) (auto simp: getRoom_def roomAt_def split: option.splits)

lemma normalizeSnapshot_export:
  assumes "trimmed key" and "key \<noteq> []"
    and "list_all wfEvent evs" and "distinct (map txId evs)"
  shows "normalizeSnapshot clock L
           (snapshotValue \<lparr> snap_channel = key, snap_version = 1, snap_events = evs \<rparr>) =
         Inr (Some \<lparr> snap_channel = key, snap_version = 1, snap_events = sortByTs evs \<rparr>)"
  using assms normalizeSnapshotLoop_fix [of evs "[]" clock 0]
  by (simp add: normalizeSnapshot_def snapshotValue_def resolveChannel_own_key versionOf_def
      maxSafeInteger_def)

lemma importRoom_export_replace:
  assumes "trimmed key" and "key \<noteq> []"
    and "list_all wfEvent evs" and "distinct (map txId evs)"
  shows "importRoom clock L
           (snapshotValue \<lparr> snap_channel = key, snap_version = 1, snap_events = sortByTs evs \<rparr>) True =
         Inr (ImportOk key (length evs) (length evs),
              L\<lparr>rooms := (rooms L)(key \<mapsto>
                  \<lparr> events = sortByTs evs, txSeen = set (map txId evs) \<rparr>)\<rparr>)"
proof -
  have n: "normalizeSnapshot clock L
             (snapshotValue \<lparr> snap_channel = key, snap_version = 1, snap_events = sortByTs evs \<rparr>) =
           Inr (Some \<lparr> snap_channel = key, snap_version = 1, snap_events = sortByTs evs \<rparr>)"
    using normalizeSnapshot_export [OF assms(1,2), of "sortByTs evs" clock L] assms(3,4) by simp
  have g: "getRoom L (JStr key) =
             Inr (key, roomAt L key, L\<lparr>rooms := (rooms L)(key \<mapsto> roomAt L key)\<rparr>)"
    by (rule getRoom_roomAt [OF resolveChannel_own_key [OF assms(1,2)]])
  have "importLoop (sortByTs evs) \<lparr> events = [], txSeen = {} \<rparr> 0 =
          (\<lparr> events = [], txSeen = {} \<rparr>
             \<lparr>txSeen := txSeen \<lparr> events = [], txSeen = {} \<rparr> \<union> set (map txId (sortByTs evs)),
              events := events \<lparr> events = [], txSeen = {} \<rparr> @ sortByTs evs\<rparr>,
           0 + length (sortByTs evs))"
    using assms(4) by (intro importLoop_fresh) simp_all
  then have l: "importLoop (sortByTs evs) \<lparr> events = [], txSeen = {} \<rparr> 0 =
             (\<lparr> events = sortByTs evs, txSeen = set (map txId evs) \<rparr>, length evs)"
    by simp
  show ?thesis
    unfolding importRoom_def n by (simp add: g l Let_def)
qed

lemma importRoom_export_merge_same:
  assumes "trimmed key" and "key \<noteq> []" and "wfRoom (roomAt L key)"
  shows "importRoom clock L
           (snapshotValue \<lparr> snap_channel = key, snap_version = 1,
                            snap_events = sortByTs (events (roomAt L key)) \<rparr>) False =
         Inr (ImportOk key 0 (length (events (roomAt L key))),
              L\<lparr>rooms := (rooms L)(key \<mapsto>
                  (roomAt L key)\<lparr>events := sortByTs (events (roomAt L key))\<rparr>)\<rparr>)"
proof -
  let ?evs = "events (roomAt L key)"
  have n: "normalizeSnapshot clock L
             (snapshotValue \<lparr> snap_channel = key, snap_version = 1, snap_events = sortByTs ?evs \<rparr>) =
           Inr (Some \<lparr> snap_channel = key, snap_version = 1, snap_events = sortByTs ?evs \<rparr>)"
    using normalizeSnapshot_export [OF assms(1,2), of "sortByTs ?evs" clock L] assms(3)
    by (simp add: wfRoom_def)
  have g: "getRoom L (JStr key) =
             Inr (key, roomAt L key, L\<lparr>rooms := (rooms L)(key \<mapsto> roomAt L key)\<rparr>)"
    by (rule getRoom_roomAt [OF resolveChannel_own_key [OF assms(1,2)]])
  have l: "importLoop (sortByTs ?evs) (roomAt L key) 0 = (roomAt L key, 0)"
    using assms(3) by (intro importLoop_seen) (simp add: wfRoom_def)
  show ?thesis
    unfolding importRoom_def n by (simp add: g l Let_def)
qed

lemma importRoom_export_merge_empty:
  assumes "trimmed key" and "key \<noteq> []"
    and "list_all wfEvent evs" and "distinct (map txId evs)"
    and "roomAt L key = emptyRoom"
  shows "importRoom clock L
           (snapshotValue \<lparr> snap_channel = key, snap_version = 1, snap_events = sortByTs evs \<rparr>) False =
         Inr (ImportOk key (length evs) (length evs),
              L\<lparr>rooms := (rooms L)(key \<mapsto>
                  \<lparr> events = sortByTs evs, txSeen = set (map txId evs) \<rparr>)\<rparr>)"
proof -
  have n: "normalizeSnapshot clock L
             (snapshotValue \<lparr> snap_channel = key, snap_version = 1, snap_events = sortByTs evs \<rparr>) =
           Inr (Some \<lparr> snap_channel = key, snap_version = 1, snap_events = sortByTs evs \<rparr>)"
    using normalizeSnapshot_export [OF assms(1,2), of "sortByTs evs" clock L] assms(3,4) by simp
  have g: "getRoom L (JStr key) =
             Inr (key, emptyRoom, L\<lparr>rooms := (rooms L)(key \<mapsto> emptyRoom)\<rparr>)"
    using getRoom_roomAt [OF resolveChannel_own_key [OF assms(1,2)], of L] assms(5) by simp
  have "importLoop (sortByTs evs) emptyRoom 0 =
             (emptyRoom\<lparr>txSeen := txSeen emptyRoom \<union> set (map txId (sortByTs evs)),
                         events := events emptyRoom @ sortByTs evs\<rparr>,
              0 + length (sortByTs evs))"
    using assms(4) by (intro importLoop_fresh) (simp_all add: emptyRoom_def)
  then have l: "importLoop (sortByTs evs) emptyRoom 0 =
             (\<lparr> events = sortByTs evs, txSeen = set (map txId evs) \<rparr>, length evs)"
    by (simp add: emptyRoom_def)
  show ?thesis
    unfolding importRoom_def n by (simp add: g l Let_def)
qed

section \<open>The ledger invariant\<close>

lemma wfRoom_emptyRoom [simp]: "wfRoom emptyRoom"
  by (simp add: wfRoom_def emptyRoom_def)

lemma roomAt_update [simp]:
  "roomAt (L\<lparr>rooms := (rooms L)(key \<mapsto> r)\<rparr>) k = (if k = key then r else roomAt L k)"
  by (simp add: roomAt_def)

lemma roomAt_delete [simp]:
  "roomAt (L\<lparr>rooms := (rooms L)(key := None)\<rparr>) k = (if k = key then emptyRoom else roomAt L k)"
  by (simp add: roomAt_def)

lemma wfRoom_sorted [simp]: "wfRoom (r\<lparr>events := sortByTs (events r)\<rparr>) = wfRoom r"
  by (simp add: wfRoom_def)

lemma wfRoom_append:
  assumes "wfRoom r" and "wfEvent n" and "txId n \<notin> txSeen r"
  shows "wfRoom (r\<lparr>txSeen := insert (txId n) (txSeen r), events := events r @ [n]\<rparr>)"
  using assms by (auto simp: wfRoom_def)

lemma wfLedger_update:
  "wfLedger L \<Longrightarrow> wfRoom r \<Longrightarrow> wfLedger (L\<lparr>rooms := (rooms L)(key \<mapsto> r)\<rparr>)"
  by (simp add: wfLedger_def)

lemma wfLedger_newLedger: "wfLedger (newLedger cfg)"
  using newLedger_defaultChannel [of cfg] by (simp add: wfLedger_def) (simp add: roomAt_def newLedger_def)

lemma wfLedger_addEvent:
  assumes "wfLedger L" and "addEvent now L channel ev = Inr (res, L')"
  shows "wfLedger L'"
proof (cases "normalizeEvent now ev")
  case (Inl err)
  with assms(2) show ?thesis by (simp add: addEvent_def)
next
  case (Inr normalized)
  show ?thesis
  proof (cases normalized)
    case None
    with Inr assms show ?thesis by (simp add: addEvent_def)
  next
    case (Some n)
    from Inr Some assms(2) obtain key where key: "resolveChannel L channel = Inr key"
      by (cases "resolveChannel L channel") (auto simp: addEvent_def getRoom_def)
    have wfn: "wfEvent n" using Inr Some by (auto intro: normalizeEvent_wf)
    have wfr: "wfRoom (roomAt L key)" using assms(1) by (simp add: wfLedger_def)
    let ?L1 = "L\<lparr>rooms := (rooms L)(key \<mapsto> roomAt L key)\<rparr>"
    have L1: "wfLedger ?L1" using assms(1) wfr by (rule wfLedger_update)
    show ?thesis
    proof (cases "txId n \<in> txSeen (roomAt L key)")
      case True
      with Inr Some assms(2) have "L' = ?L1"
        by (simp add: addEvent_def getRoom_roomAt [OF key])
      with L1 show ?thesis by simp
    next
      case False
      with Inr Some assms(2) have "L' = ?L1\<lparr>rooms := (rooms ?L1)(key \<mapsto>
          (roomAt L key)\<lparr>txSeen := insert (txId n) (txSeen (roomAt L key)),
                           events := events (roomAt L key) @ [n]\<rparr>)\<rparr>"
        by (simp add: addEvent_def getRoom_roomAt [OF key])
      with wfLedger_update [OF L1 wfRoom_append [OF wfr wfn False], of key] show ?thesis
        by simp
    qed
  qed
qed

lemma wfLedger_clearChannel:
  assumes "wfLedger L" and "clearChannel L channel = Inr (target, L')"
  shows "wfLedger L'"
  using assms by (auto simp: clearChannel_def andThen_eq_Inr wfLedger_def)

lemma normalizeSnapshotLoop_wf:
  assumes "normalizeSnapshotLoop clock i raws seen acc = Inr evs" and "list_all wfEvent acc"
  shows "list_all wfEvent evs"
  using assms
proof (induction raws arbitrary: i seen acc)
  case Nil
  then show ?case by simp
next
  case (Cons raw raws)
  from Cons.prems(1) obtain normalized where n: "normalizeEvent (clock i) raw = Inr normalized"
    by (cases "normalizeEvent (clock i) raw") simp_all
  show ?case
  proof (cases normalized)
    case None
    with n Cons show ?thesis by simp
  next
    case (Some e)
    with n have "wfEvent e" by (auto intro: normalizeEvent_wf)
    with n Some Cons.prems Cons.IH [of "i + 1" seen acc]
      Cons.IH [of "i + 1" "insert (txId e) seen" "acc @ [e]"]
    show ?thesis by (cases "txId e \<in> seen") simp_all
  qed
qed

lemma importLoop_wfRoom:
  assumes "wfRoom r" and "list_all wfEvent evs"
  shows "wfRoom (fst (importLoop evs r added))"
  using assms
proof (induction evs arbitrary: r added)
  case Nil
  then show ?case by simp
next
  case (Cons e evs)
  show ?case
  proof (cases "txId e \<in> txSeen r")
    case True
    with Cons show ?thesis by simp
  next
    case False
    with Cons.prems have "wfRoom (r\<lparr>txSeen := insert (txId e) (txSeen r), events := events r @ [e]\<rparr>)"
      by (intro wfRoom_append) simp_all
    with Cons False show ?thesis by simp
  qed
qed

lemma wfLedger_importRoom:
  assumes "wfLedger L" and "importRoom clock L snap replace = Inr (res, L')"
  shows "wfLedger L'"
proof -
  from assms(2) obtain normalized where n: "normalizeSnapshot clock L snap = Inr normalized"
    by (cases "normalizeSnapshot clock L snap") (simp_all add: importRoom_def)
  show ?thesis
  proof (cases normalized)
    case None
    with n assms show ?thesis by (simp add: importRoom_def)
  next
    case (Some s)
    from n Some have wfs: "list_all wfEvent (snap_events s)"
      by (auto simp: normalizeSnapshot_def andThen_eq_Inr split: if_splits
          dest!: normalizeSnapshotLoop_wf)
    from n Some assms(2) obtain key where key: "resolveChannel L (JStr (snap_channel s)) = Inr key"
      by (cases "resolveChannel L (JStr (snap_channel s))") (auto simp: importRoom_def getRoom_def)
    let ?r1 = "if replace then (roomAt L key)\<lparr>events := [], txSeen := {}\<rparr> else roomAt L key"
    have wfr: "wfRoom (roomAt L key)" using assms(1) by (simp add: wfLedger_def)
    then have "wfRoom ?r1" by (simp add: wfRoom_def)
    then have "wfRoom (fst (importLoop (snap_events s) ?r1 0))"
      using wfs by (rule importLoop_wfRoom)
    then have r2: "wfRoom ((fst (importLoop (snap_events s) ?r1 0))
          \<lparr>events := sortByTs (events (fst (importLoop (snap_events s) ?r1 0)))\<rparr>)"
      by (simp only: wfRoom_sorted)
    let ?L1 = "L\<lparr>rooms := (rooms L)(key \<mapsto> roomAt L key)\<rparr>"
    have L1: "wfLedger ?L1" using assms(1) wfr by (rule wfLedger_update)
    have "L' = ?L1\<lparr>rooms := (rooms ?L1)(key \<mapsto>
        (fst (importLoop (snap_events s) ?r1 0))
          \<lparr>events := sortByTs (events (fst (importLoop (snap_events s) ?r1 0)))\<rparr>)\<rparr>"
      using n Some assms(2)
      by (simp add: importRoom_def getRoom_roomAt [OF key] Let_def split: prod.splits if_splits)
    with wfLedger_update [OF L1 r2, of key] show ?thesis by (simp only:)
  qed
qed

section \<open>Export followed by import\<close>

text \<open>
  C6, as amended. In a ledger that satisfies the invariant, the export of a room,
  imported again into the same room:
  with \<open>replace: true\<close> the room is emptied and rebuilt, so the result reports
  \<open>added = total =\<close> the number of events, and the room holds the same events (in
  timestamp order) and the same dedup index as before;
  with \<open>replace: false\<close> the result reports \<open>added = 0\<close> and the same total, the room
  again holding the same events in timestamp order.
  Imported into an empty room of any ledger, with either option, the export gives
  \<open>added = total =\<close> the number of events of the exported room.
\<close>

theorem snapshot_round_trip:
  assumes "wfLedger L" and "resolveChannel L channel = Inr key"
  shows "\<exists>snap.
           exportRoom L channel = Inr snap \<and>
           snap_events snap = sortByTs (events (roomAt L key)) \<and>
           importRoom clock L (snapshotValue snap) True =
             Inr (ImportOk key (length (events (roomAt L key))) (length (events (roomAt L key))),
                  L\<lparr>rooms := (rooms L)(key \<mapsto>
                      (roomAt L key)\<lparr>events := sortByTs (events (roomAt L key))\<rparr>)\<rparr>) \<and>
           importRoom clock L (snapshotValue snap) False =
             Inr (ImportOk key 0 (length (events (roomAt L key))),
                  L\<lparr>rooms := (rooms L)(key \<mapsto>
                      (roomAt L key)\<lparr>events := sortByTs (events (roomAt L key))\<rparr>)\<rparr>) \<and>
           (\<forall>L0 replace. roomAt L0 key = emptyRoom \<longrightarrow>
              importRoom clock L0 (snapshotValue snap) replace =
                Inr (ImportOk key (length (events (roomAt L key))) (length (events (roomAt L key))),
                     L0\<lparr>rooms := (rooms L0)(key \<mapsto>
                         (roomAt L key)\<lparr>events := sortByTs (events (roomAt L key))\<rparr>)\<rparr>))"
proof -
  let ?evs = "events (roomAt L key)"
  let ?snap = "\<lparr> snap_channel = key, snap_version = 1, snap_events = sortByTs ?evs \<rparr>"
  have k: "trimmed key" "key \<noteq> []"
    using resolveChannel_key [OF assms(2)] assms(1) by (simp_all add: wfLedger_def)
  have wf: "wfRoom (roomAt L key)" using assms(1) by (simp add: wfLedger_def)
  then have evs: "list_all wfEvent ?evs" "distinct (map txId ?evs)"
    and seen: "txSeen (roomAt L key) = set (map txId ?evs)"
    by (simp_all add: wfRoom_def)
  have same: "\<lparr> events = sortByTs ?evs, txSeen = set (map txId ?evs) \<rparr> =
              (roomAt L key)\<lparr>events := sortByTs ?evs\<rparr>"
    using seen by (cases "roomAt L key") simp
  have ex: "exportRoom L channel = Inr ?snap"
    by (rule exportRoom_returns [OF assms(2) k])
  have r: "importRoom clock L0 (snapshotValue ?snap) True =
             Inr (ImportOk key (length ?evs) (length ?evs),
                  L0\<lparr>rooms := (rooms L0)(key \<mapsto> (roomAt L key)\<lparr>events := sortByTs ?evs\<rparr>)\<rparr>)" for L0
    using importRoom_export_replace [OF k evs, of clock L0] by (simp only: same)
  have m: "importRoom clock L (snapshotValue ?snap) False =
             Inr (ImportOk key 0 (length ?evs),
                  L\<lparr>rooms := (rooms L)(key \<mapsto> (roomAt L key)\<lparr>events := sortByTs ?evs\<rparr>)\<rparr>)"
    by (rule importRoom_export_merge_same [OF k wf])
  have e: "importRoom clock L0 (snapshotValue ?snap) False =
             Inr (ImportOk key (length ?evs) (length ?evs),
                  L0\<lparr>rooms := (rooms L0)(key \<mapsto> (roomAt L key)\<lparr>events := sortByTs ?evs\<rparr>)\<rparr>)"
    if "roomAt L0 key = emptyRoom" for L0
    using importRoom_export_merge_empty [OF k evs that, of clock] by (simp only: same)
  have "importRoom clock L0 (snapshotValue ?snap) replace =
             Inr (ImportOk key (length ?evs) (length ?evs),
                  L0\<lparr>rooms := (rooms L0)(key \<mapsto> (roomAt L key)\<lparr>events := sortByTs ?evs\<rparr>)\<rparr>)"
    if "roomAt L0 key = emptyRoom" for L0 replace
    using r [of L0] e [OF that] by (cases replace) simp_all
  with ex r [of L] m show ?thesis
    by (intro exI [of _ ?snap]) simp
qed

lemma wfEvent_dinner: "wfEvent dinner"
  by code_simp

lemma wfLedger_tripLedger: "wfLedger tripLedger"
  using wfEvent_dinner
  by (auto simp: wfLedger_def roomAt_def tripLedger_def wfRoom_def emptyRoom_def dinner_def
      trimmed_def isWhiteSpace_def)

lemma roomAt_tripLedger: "roomAt tripLedger ''trip'' = \<lparr> events = [dinner], txSeen = {''t1''} \<rparr>"
  by (simp add: roomAt_def tripLedger_def)

lemma sortByTs_single [simp]: "sortByTs [e] = [e]"
  by (simp add: sortByTs_def)

theorem snapshot_round_trip_witness:
  "wfLedger tripLedger \<and> resolveChannel tripLedger (JStr ''trip'') = Inr ''trip'' \<and>
   (\<exists>snap. exportRoom tripLedger (JStr ''trip'') = Inr snap \<and>
      snap_events snap = [dinner] \<and>
      importRoom (constClock 0) tripLedger (snapshotValue snap) True =
        Inr (ImportOk ''trip'' 1 1,
             tripLedger\<lparr>rooms := (rooms tripLedger)(''trip'' \<mapsto>
                 \<lparr> events = [dinner], txSeen = {''t1''} \<rparr>)\<rparr>) \<and>
      importRoom (constClock 0) tripLedger (snapshotValue snap) False =
        Inr (ImportOk ''trip'' 0 1,
             tripLedger\<lparr>rooms := (rooms tripLedger)(''trip'' \<mapsto>
                 \<lparr> events = [dinner], txSeen = {''t1''} \<rparr>)\<rparr>))"
proof -
  have h: "resolveChannel tripLedger (JStr ''trip'') = Inr ''trip''"
    by (rule resolveChannel_trip)
  from snapshot_round_trip [OF wfLedger_tripLedger h, of "constClock 0"]
  obtain snap where "exportRoom tripLedger (JStr ''trip'') = Inr snap"
    and "snap_events snap = sortByTs (events (roomAt tripLedger ''trip''))"
    and "importRoom (constClock 0) tripLedger (snapshotValue snap) True =
           Inr (ImportOk ''trip'' (length (events (roomAt tripLedger ''trip'')))
                  (length (events (roomAt tripLedger ''trip''))),
                tripLedger\<lparr>rooms := (rooms tripLedger)(''trip'' \<mapsto>
                  (roomAt tripLedger ''trip'')\<lparr>events := sortByTs (events (roomAt tripLedger ''trip''))\<rparr>)\<rparr>)"
    and "importRoom (constClock 0) tripLedger (snapshotValue snap) False =
           Inr (ImportOk ''trip'' 0 (length (events (roomAt tripLedger ''trip''))),
                tripLedger\<lparr>rooms := (rooms tripLedger)(''trip'' \<mapsto>
                  (roomAt tripLedger ''trip'')\<lparr>events := sortByTs (events (roomAt tripLedger ''trip''))\<rparr>)\<rparr>)"
    by blast
  then have "exportRoom tripLedger (JStr ''trip'') = Inr snap \<and>
      snap_events snap = [dinner] \<and>
      importRoom (constClock 0) tripLedger (snapshotValue snap) True =
        Inr (ImportOk ''trip'' 1 1,
             tripLedger\<lparr>rooms := (rooms tripLedger)(''trip'' \<mapsto>
                 \<lparr> events = [dinner], txSeen = {''t1''} \<rparr>)\<rparr>) \<and>
      importRoom (constClock 0) tripLedger (snapshotValue snap) False =
        Inr (ImportOk ''trip'' 0 1,
             tripLedger\<lparr>rooms := (rooms tripLedger)(''trip'' \<mapsto>
                 \<lparr> events = [dinner], txSeen = {''t1''} \<rparr>)\<rparr>)"
    by (simp add: roomAt_tripLedger)
  with wfLedger_tripLedger h show ?thesis by blast
qed

text \<open>
  The round trip as the specification states it fails: re-importing the export of the room \<open>trip\<close>, which holds one
  event, with \<open>replace: true\<close> reports \<open>added = 1\<close>, not 0. The ledger is left as it was.
\<close>

theorem reimport_replace_counterexample:
  "exportRoom tripLedger (JStr ''trip'') =
     Inr \<lparr> snap_channel = ''trip'', snap_version = 1, snap_events = [dinner] \<rparr> \<and>
   importRoom (constClock 0) tripLedger
     (snapshotValue \<lparr> snap_channel = ''trip'', snap_version = 1, snap_events = [dinner] \<rparr>) True =
     Inr (ImportOk ''trip'' 1 1, tripLedger)"
proof -
  have k: "trimmed ''trip''" "''trip'' \<noteq> []"
    by (simp_all add: trimmed_def isWhiteSpace_def)
  have ex: "exportRoom tripLedger (JStr ''trip'') =
     Inr \<lparr> snap_channel = ''trip'', snap_version = 1, snap_events = [dinner] \<rparr>"
    using exportRoom_returns [OF resolveChannel_trip k, of tripLedger] by (simp add: roomAt_tripLedger)
  have same: "tripLedger\<lparr>rooms := (rooms tripLedger)(''trip'' \<mapsto>
                 \<lparr> events = [dinner], txSeen = {''t1''} \<rparr>)\<rparr> = tripLedger"
    by (simp add: tripLedger_def)
  have "importRoom (constClock 0) tripLedger
     (snapshotValue \<lparr> snap_channel = ''trip'', snap_version = 1, snap_events = sortByTs [dinner] \<rparr>) True =
     Inr (ImportOk ''trip'' (length [dinner]) (length [dinner]),
          tripLedger\<lparr>rooms := (rooms tripLedger)(''trip'' \<mapsto>
             \<lparr> events = sortByTs [dinner], txSeen = set (map txId [dinner]) \<rparr>)\<rparr>)"
    using wfEvent_dinner by (intro importRoom_export_replace [OF k]) simp_all
  then have "importRoom (constClock 0) tripLedger
     (snapshotValue \<lparr> snap_channel = ''trip'', snap_version = 1, snap_events = [dinner] \<rparr>) True =
     Inr (ImportOk ''trip'' 1 1, tripLedger)"
    using same by (simp add: dinner_def)
  with ex show ?thesis by blast
qed

section \<open>Lenient parsing of the amount\<close>

text \<open>
  C10. \<open>normalizeEvent\<close> reads \<open>amountCents\<close> with \<open>Number.parseInt\<close>, which truncates:
  an event whose amount is the number 12.9, and an event whose amount is the string
  \<open>12abc\<close>, are both accepted with the amount 12.
\<close>

theorem normalizeEvent_truncates_amount:
  "normalizeEvent now
     (JObj [(''txId'', JStr ''t1''), (''payer'', JStr ''alice''),
            (''amountCents'', JNum 129 (- 1)), (''split'', JArr [JStr ''alice''])])
   = Inr (Some \<lparr> txId = ''t1'', payer = ''alice'', amountCents = 12, split = [''alice''],
                 note_text = [], ts = (now, 0), by_id = JNull \<rparr>)
   \<and>
   normalizeEvent now
     (JObj [(''txId'', JStr ''t1''), (''payer'', JStr ''alice''),
            (''amountCents'', JStr ''12abc''), (''split'', JArr [JStr ''alice''])])
   = Inr (Some \<lparr> txId = ''t1'', payer = ''alice'', amountCents = 12, split = [''alice''],
                 note_text = [], ts = (now, 0), by_id = JNull \<rparr>)"
  by code_simp

theorem normalizeEvent_truncates_amount_witness:
  "normalizeEvent 0
     (JObj [(''txId'', JStr ''t1''), (''payer'', JStr ''alice''),
            (''amountCents'', JNum 129 (- 1)), (''split'', JArr [JStr ''alice''])])
   = Inr (Some \<lparr> txId = ''t1'', payer = ''alice'', amountCents = 12, split = [''alice''],
                 note_text = [], ts = (0, 0), by_id = JNull \<rparr>)
   \<and>
   normalizeEvent 0
     (JObj [(''txId'', JStr ''t1''), (''payer'', JStr ''alice''),
            (''amountCents'', JStr ''12abc''), (''split'', JArr [JStr ''alice''])])
   = Inr (Some \<lparr> txId = ''t1'', payer = ''alice'', amountCents = 12, split = [''alice''],
                 note_text = [], ts = (0, 0), by_id = JNull \<rparr>)"
  by (rule normalizeEvent_truncates_amount [of 0])

end
